theory Spec2Isabelle
  imports Complex_Main "HOL-Library.Sublist"
begin

section \<open>Common notions: keys, time, promises\<close>

text \<open>
  The request-governance layer lives in three JavaScript modules: the response cache
  (\<^verbatim>\<open>utils/requestCache.js\<close>), the request queue (\<^verbatim>\<open>requestThrottle.js\<close>) and the
  React hooks \<^verbatim>\<open>useApiCache\<close> / \<^verbatim>\<open>useBatchApi\<close>. JavaScript runs them on one thread;
  an \<^verbatim>\<open>async\<close> function runs synchronously up to its first \<^verbatim>\<open>await\<close> and is resumed
  later. The model therefore executes the synchronous part of every method as one state
  transformer, and represents each suspended continuation by data in the state that a
  later event resumes.

  \<^item> \<^verbatim>\<open>Date.now()\<close> is the parameter or field \<open>now\<close>, an integer number of milliseconds.
  \<^item> A promise is a natural number; its settlement is looked up in a finite map, where
    \<open>None\<close> means "not settled yet".
  \<^item> A caller-supplied operation is opaque: invoking it either throws synchronously or
    returns a promise that the environment settles later.
\<close>

type_synonym key = string
type_synonym pid = nat
type_synonym err = string

datatype 'v outcome = Fulfilled 'v | Rejected err

datatype requestFn = Returns | SyncThrow err

section \<open>The response cache (\<^verbatim>\<open>utils/requestCache.js\<close>)\<close>

record 'v entry =
  data :: 'v
  timestamp :: int

text \<open>
  The bookkeeping of a pending-request map, which the cache and the queue both have
  (for \<^verbatim>\<open>RequestCache.deduplicate\<close> and \<^verbatim>\<open>RequestThrottle.deduplicateRequest\<close>):
  \<open>pendingRequests\<close> is the JavaScript \<^verbatim>\<open>Map\<close>; \<open>settledP\<close> stores the settlement of
  every promise an operation returned; \<open>invoked\<close> logs every invocation of an operation
  (key and the promise it returned); \<open>awaiting\<close> holds the suspended continuations of
  \<^verbatim>\<open>await promise\<close>, each remembering the key it will delete.
\<close>

record 'v pending =
  pendingRequests :: "key \<rightharpoonup> pid"
  settledP :: "pid \<rightharpoonup> 'v outcome"
  next_pid :: pid
  invoked :: "(key \<times> pid) list"
  awaiting :: "(pid \<times> key) list"

record 'v RequestCache = "'v pending" +
  cache :: "key \<rightharpoonup> 'v entry"
  cacheTimeout :: int

definition new_RequestCache :: "'v RequestCache" where
  "new_RequestCache =
     \<lparr> pendingRequests = Map.empty, settledP = Map.empty, next_pid = 0, invoked = [],
       awaiting = [], cache = Map.empty, cacheTimeout = 5 * 60 * 1000 \<rparr>"

definition generateKey :: "string \<Rightarrow> string \<Rightarrow> string option \<Rightarrow> key" where
  \<comment> \<open>the body is given already serialised; an absent (falsy) body contributes the empty string\<close>
  "generateKey url method body =
     method @ '':'' @ url @ '':'' @ (case body of None \<Rightarrow> [] | Some bodyStr \<Rightarrow> bodyStr)"

definition get_cache :: "int \<Rightarrow> key \<Rightarrow> 'v RequestCache \<Rightarrow> 'v option \<times> 'v RequestCache" where
  \<comment> \<open>\<open>None\<close> is the JavaScript \<^verbatim>\<open>null\<close> the method returns\<close>
  "get_cache now k c =
     (case cache c k of
        None \<Rightarrow> (None, c)
      | Some cached \<Rightarrow>
          if now - timestamp cached > cacheTimeout c
          then (None, c\<lparr>cache := (cache c)(k := None)\<rparr>)
          else (Some (data cached), c))"

definition set_cache :: "int \<Rightarrow> key \<Rightarrow> 'v \<Rightarrow> 'v RequestCache \<Rightarrow> 'v RequestCache" where
  "set_cache now k d c = c\<lparr>cache := (cache c)(k \<mapsto> \<lparr>data = d, timestamp = now\<rparr>)\<rparr>"

definition delete_cache :: "key \<Rightarrow> 'v RequestCache \<Rightarrow> 'v RequestCache" where
  "delete_cache k c = c\<lparr>cache := (cache c)(k := None)\<rparr>"

definition clear_cache :: "'v RequestCache \<Rightarrow> 'v RequestCache" where
  "clear_cache c = c\<lparr>cache := Map.empty, pendingRequests := Map.empty\<rparr>"

text \<open>The periodic clean-up registered with \<^verbatim>\<open>setInterval\<close> at the end of the module.\<close>

definition cleanup_cache :: "int \<Rightarrow> 'v RequestCache \<Rightarrow> 'v RequestCache" where
  "cleanup_cache now c =
     c\<lparr>cache := (\<lambda>k. case cache c k of
                         None \<Rightarrow> None
                       | Some cached \<Rightarrow>
                           if now - timestamp cached > cacheTimeout c then None
                           else Some cached)\<rparr>"

subsection \<open>The tier table and \<^verbatim>\<open>getCacheTimeout\<close>\<close>

record category =
  timeout :: int
  endpoints :: "string list"

definition masterData :: category where
  "masterData = \<lparr> timeout = 10 * 60 * 1000,
                   endpoints = [''/kategori/'', ''/tingkatan/'', ''/pendidikan/''] \<rparr>"

definition userData :: category where
  "userData = \<lparr> timeout = 5 * 60 * 1000, endpoints = [''/user/'', ''/kelas/get-kelas''] \<rparr>"

definition dynamicData :: category where
  "dynamicData = \<lparr> timeout = 2 * 60 * 1000, endpoints = [''/kuis/'', ''/soal/''] \<rparr>"

definition noCache_methods :: "string list" where
  "noCache_methods = [''POST'', ''PUT'', ''DELETE'', ''PATCH'']"

text \<open>\<^verbatim>\<open>Object.entries(cacheConfig)\<close> in insertion order; \<^verbatim>\<open>noCache\<close> has no endpoints.\<close>

definition cacheConfig :: "category list" where
  "cacheConfig = [masterData, userData, dynamicData]"

primrec includes_str :: "string \<Rightarrow> string \<Rightarrow> bool" where
  "includes_str [] sub = (sub = [])"
| "includes_str (c # cs) sub = (prefix sub (c # cs) \<or> includes_str cs sub)"

definition upper_char :: "char \<Rightarrow> char" where
  "upper_char c =
     (case map_of (zip ''abcdefghijklmnopqrstuvwxyz'' ''ABCDEFGHIJKLMNOPQRSTUVWXYZ'') c of
        None \<Rightarrow> c | Some u \<Rightarrow> u)"

definition toUpperCase :: "string \<Rightarrow> string" where
  "toUpperCase s = map upper_char s"

fun first_match :: "string \<Rightarrow> category list \<Rightarrow> int option" where
  "first_match url [] = None"
| "first_match url (config # rest) =
     (if \<exists>endpoint \<in> set (endpoints config). includes_str url endpoint
      then Some (timeout config) else first_match url rest)"

definition getCacheTimeout :: "'v RequestCache \<Rightarrow> string \<Rightarrow> string \<Rightarrow> int" where
  "getCacheTimeout requestCache url method =
     (if toUpperCase method \<in> set noCache_methods then 0
      else case first_match url cacheConfig of
             Some t \<Rightarrow> t
           | None \<Rightarrow> cacheTimeout requestCache)"

section \<open>The pending-request deduplicator\<close>

text \<open>
  \<^verbatim>\<open>RequestCache.deduplicate\<close> and \<^verbatim>\<open>RequestThrottle.deduplicateRequest\<close> have the same
  body, each over the \<^verbatim>\<open>pendingRequests\<close> map of its own object. The function below is
  that body up to \<^verbatim>\<open>await promise\<close>; it is defined on every record that extends
  \<open>pending\<close>. The result is the promise whose settlement the caller receives: the
  registered one when the key is pending, otherwise the promise of the operation just
  invoked (already rejected when the operation threw before returning one).
\<close>

definition deduplicate ::
  "key \<Rightarrow> requestFn \<Rightarrow> ('v, 'm) pending_scheme \<Rightarrow> pid \<times> ('v, 'm) pending_scheme" where
  "deduplicate k requestFn s =
     (case pendingRequests s k of
        Some p \<Rightarrow> (p, s)
      | None \<Rightarrow>
          let promise = next_pid s;
              s1 = s\<lparr>next_pid := promise + 1, invoked := invoked s @ [(k, promise)]\<rparr>
          in case requestFn of
               SyncThrow e \<Rightarrow> (promise, s1\<lparr>settledP := (settledP s1)(promise \<mapsto> Rejected e)\<rparr>)
             | Returns \<Rightarrow>
                 (promise, s1\<lparr>pendingRequests := (pendingRequests s1)(k \<mapsto> promise),
                               awaiting := awaiting s1 @ [(promise, k)]\<rparr>))"

text \<open>The environment settles the promise of an operation, once.\<close>

definition settle ::
  "pid \<Rightarrow> 'v outcome \<Rightarrow> ('v, 'm) pending_scheme \<Rightarrow> ('v, 'm) pending_scheme" where
  "settle p out s =
     (if p < next_pid s \<and> settledP s p = None then s\<lparr>settledP := (settledP s)(p \<mapsto> out)\<rparr>
      else s)"

text \<open>
  The continuation after \<^verbatim>\<open>await promise\<close>, in the \<^verbatim>\<open>try\<close> and in the \<^verbatim>\<open>catch\<close> branch
  alike: \<^verbatim>\<open>this.pendingRequests.delete(key)\<close>. It runs once the promise has settled.
\<close>

definition resume :: "pid \<Rightarrow> ('v, 'm) pending_scheme \<Rightarrow> ('v, 'm) pending_scheme" where
  "resume p s =
     (case settledP s p of
        None \<Rightarrow> s
      | Some out \<Rightarrow>
          s\<lparr>pendingRequests :=
               (\<lambda>k. if (p, k) \<in> set (awaiting s) then None else pendingRequests s k),
            awaiting := filter (\<lambda>(q, k). q \<noteq> p) (awaiting s)\<rparr>)"

text \<open>
  What \<^verbatim>\<open>clear()\<close> does to the deduplicator: \<^verbatim>\<open>this.pendingRequests.clear()\<close>.
  (\<^verbatim>\<open>RequestCache.clear\<close> also empties the cache map, \<^verbatim>\<open>RequestThrottle.clear\<close> also
  empties the queue and resets \<^verbatim>\<open>isProcessing\<close>.)
\<close>

definition clear_pending :: "('v, 'm) pending_scheme \<Rightarrow> ('v, 'm) pending_scheme" where
  "clear_pending s = s\<lparr>pendingRequests := Map.empty\<rparr>"

datatype 'v dedup_event =
    Call key requestFn
  | Settle pid "'v outcome"
  | Resume pid
  | ClearPending

fun dedup_step ::
  "'v dedup_event \<Rightarrow> ('v, 'm) pending_scheme \<Rightarrow> ('v, 'm) pending_scheme" where
  "dedup_step (Call k requestFn) s = snd (deduplicate k requestFn s)"
| "dedup_step (Settle p out) s = settle p out s"
| "dedup_step (Resume p) s = resume p s"
| "dedup_step ClearPending s = clear_pending s"

definition dedup_run ::
  "'v dedup_event list \<Rightarrow> ('v, 'm) pending_scheme \<Rightarrow> ('v, 'm) pending_scheme" where
  "dedup_run evs s = fold dedup_step evs s"

text \<open>Promises are numbered below \<open>next_pid\<close>: a number not yet used is not settled.\<close>

definition fresh_ok :: "('v, 'm) pending_scheme \<Rightarrow> bool" where
  "fresh_ok s = (\<forall>p. next_pid s \<le> p \<longrightarrow> settledP s p = None)"

text \<open>
  The states that calls, settlements and continuations produce from a fresh object, as
  long as \<^verbatim>\<open>clear()\<close> is only called while no continuation is suspended: every
  registration has its suspended continuation and vice versa.
\<close>

definition pending_ok :: "('v, 'm) pending_scheme \<Rightarrow> bool" where
  "pending_ok s =
     (list_all (\<lambda>(p, k). pendingRequests s k = Some p \<and> p < next_pid s) (awaiting s) \<and>
      (\<forall>k p. pendingRequests s k = Some p \<longrightarrow> (p, k) \<in> set (awaiting s)) \<and>
      fresh_ok s)"


text \<open>Every \<^verbatim>\<open>clear()\<close> of a run happens while no continuation is suspended.\<close>

fun clears_quiet :: "'v dedup_event list \<Rightarrow> ('v, 'm) pending_scheme \<Rightarrow> bool" where
  "clears_quiet [] s = True"
| "clears_quiet (e # evs) s =
     ((e = ClearPending \<longrightarrow> awaiting s = []) \<and> clears_quiet evs (dedup_step e s))"

text \<open>
  The same for one key. A call for \<open>k\<close> that invoked its operation has a continuation
  suspended at \<^verbatim>\<open>await promise\<close> from then until the continuation has run, one step
  after the promise settled; the continuation deletes whatever is registered for \<open>k\<close>
  at that moment. \<open>key_ok k\<close> says that the registration of \<open>k\<close> and the suspended
  continuations for \<open>k\<close> belong together: a continuation for \<open>k\<close> is suspended exactly
  when its promise is the one registered for \<open>k\<close>.
\<close>

definition key_ok :: "key \<Rightarrow> ('v, 'm) pending_scheme \<Rightarrow> bool" where
  "key_ok k s =
     (list_all (\<lambda>(p, k'). k' = k \<longrightarrow> pendingRequests s k = Some p \<and> p < next_pid s) (awaiting s) \<and>
      (\<forall>p. pendingRequests s k = Some p \<longrightarrow> (p, k) \<in> set (awaiting s)) \<and>
      fresh_ok s)"

text \<open>
  No \<^verbatim>\<open>clear()\<close> of a run happens while a continuation for key \<open>k\<close> is suspended, that
  is, between the invocation of an operation for \<open>k\<close> by the deduplicator and the
  continuation that removes its registration. What is in flight for other keys does
  not matter.
\<close>

fun clears_spare :: "key \<Rightarrow> 'v dedup_event list \<Rightarrow> ('v, 'm) pending_scheme \<Rightarrow> bool" where
  "clears_spare k [] s = True"
| "clears_spare k (e # evs) s =
     ((e = ClearPending \<longrightarrow> k \<notin> snd ` set (awaiting s)) \<and> clears_spare k evs (dedup_step e s))"
section \<open>The batch runner (\<^verbatim>\<open>useBatchApi.executeBatch\<close>)\<close>

text \<open>
  An element of \<^verbatim>\<open>apiCalls\<close> is an operation that settles; it is represented by the
  outcome it settles with. The random start delay and the pause between batches only
  shift the calls in time and are not part of the model. \<open>Hole\<close> is an array position
  that was never assigned. The batch size and the loop index are JavaScript numbers,
  which need not be whole: they are rationals here, whose arithmetic agrees with that of
  the doubles on whole numbers and on binary fractions such as \<open>3/2\<close>.
\<close>

datatype 'v slot = Hole | Null | Val 'v

datatype 'v settled = StatusFulfilled "'v slot" | StatusRejected err

text \<open>The conversion of a number to an integer position: truncation towards zero.\<close>

definition ToIntegerOrInfinity :: "rat \<Rightarrow> int" where
  "ToIntegerOrInfinity x = (if x < 0 then - \<lfloor>- x\<rfloor> else \<lfloor>x\<rfloor>)"

text \<open>
  \<^verbatim>\<open>Array.prototype.slice(start, end)\<close>: both positions are converted to integers;
  negative positions count from the end.
\<close>

definition js_slice :: "'a list \<Rightarrow> rat \<Rightarrow> rat \<Rightarrow> 'a list" where
  "js_slice xs start end =
     (let len = int (length xs);
          relativeStart = ToIntegerOrInfinity start;
          k = (if relativeStart < 0 then max (len + relativeStart) 0 else min relativeStart len);
          relativeEnd = ToIntegerOrInfinity end;
          final = (if relativeEnd < 0 then max (len + relativeEnd) 0 else min relativeEnd len)
      in take (nat (final - k)) (drop (nat k) xs))"

text \<open>
  \<^verbatim>\<open>allResults[j] = v\<close>: when \<open>j\<close> is a whole number that is not negative it is an array
  index, and a position past the end extends the array with holes; any other \<open>j\<close>
  (negative, or with a fractional part) names an ordinary property, and the assignment
  leaves the elements and the length alone.
\<close>

definition js_assign :: "'a slot list \<Rightarrow> rat \<Rightarrow> 'a slot \<Rightarrow> 'a slot list" where
  "js_assign xs j v =
     (if j < 0 \<or> of_int \<lfloor>j\<rfloor> \<noteq> j then xs
      else if nat \<lfloor>j\<rfloor> < length xs then xs[nat \<lfloor>j\<rfloor> := v]
      else xs @ replicate (nat \<lfloor>j\<rfloor> - length xs) Hole @ [v])"

text \<open>
  The wrapper around each call catches the failure and returns \<^verbatim>\<open>null\<close>, so the promise
  handed to \<^verbatim>\<open>Promise.allSettled\<close> is always fulfilled.
\<close>

definition batchPromise :: "'v outcome \<Rightarrow> 'v settled" where
  "batchPromise apiCall =
     (case apiCall of
        Fulfilled v \<Rightarrow> StatusFulfilled (Val v)
      | Rejected e \<Rightarrow> StatusFulfilled Null)"

fun forEach_assign :: "rat \<Rightarrow> 'v settled list \<Rightarrow> nat \<Rightarrow> 'v slot list \<Rightarrow> 'v slot list" where
  "forEach_assign i [] index allResults = allResults"
| "forEach_assign i (result # rest) index allResults =
     forEach_assign i rest (index + 1)
       (case result of
          StatusFulfilled v \<Rightarrow> js_assign allResults (i + of_nat index) v
        | StatusRejected e \<Rightarrow> js_assign allResults (i + of_nat index) Null)"

text \<open>
  The \<^verbatim>\<open>for (let i = 0; i < apiCalls.length; i += batchSize)\<close> loop. Nothing bounds the
  number of iterations, so the loop is a partial function: \<open>None\<close> means that it never
  reaches \<^verbatim>\<open>setResults\<close>.
\<close>

partial_function (option) executeBatch_loop ::
  "'v outcome list \<Rightarrow> rat \<Rightarrow> rat \<Rightarrow> 'v slot list \<Rightarrow> 'v slot list option" where
  "executeBatch_loop apiCalls batchSize i allResults =
     (if i < of_nat (length apiCalls) then
        let batch = js_slice apiCalls i (i + batchSize);
            batchResults = map batchPromise batch
        in executeBatch_loop apiCalls batchSize (i + batchSize)
             (forEach_assign i batchResults 0 allResults)
      else Some allResults)"

text \<open>
  \<^verbatim>\<open>executeBatch\<close> returns the \<^verbatim>\<open>results\<close> state of the hook after the call: unchanged
  when the hook is disabled or the list is empty (the function returns before the loop
  and never calls \<^verbatim>\<open>setResults\<close>), otherwise what the loop passes to \<^verbatim>\<open>setResults\<close>.
\<close>

definition executeBatch ::
  "bool \<Rightarrow> 'v outcome list \<Rightarrow> rat \<Rightarrow> 'v slot list \<Rightarrow> 'v slot list option" where
  "executeBatch enabled apiCalls batchSize results =
     (if \<not> enabled \<or> length apiCalls = 0 then Some results
      else executeBatch_loop apiCalls batchSize 0 [])"

text \<open>What a slot of the output is expected to hold for an operation.\<close>

definition slot_of :: "'v outcome \<Rightarrow> 'v slot" where
  "slot_of apiCall = (case apiCall of Fulfilled v \<Rightarrow> Val v | Rejected e \<Rightarrow> Null)"

section \<open>The request queue (\<^verbatim>\<open>RequestThrottle\<close>)\<close>

text \<open>
  A queued task is the object pushed by \<^verbatim>\<open>queueRequest\<close>. Its closures
  (\<^verbatim>\<open>requestFn\<close>, \<^verbatim>\<open>resolve\<close>, \<^verbatim>\<open>reject\<close>) are identified by the number \<open>tid\<close> of the
  task, allotted in submission order; \<open>requestFn\<close> records how the operation behaves when
  it is invoked.
\<close>

record task =
  tid :: nat
  requestFn :: requestFn
  priority :: int
  timestamp :: int

text \<open>
  Besides the fields of the class, the state holds what the event loop keeps for it:
  the clock \<open>now\<close>; the log \<open>dispatched\<close> of every invocation of a task's operation with
  its time; \<open>settled\<close>, the outcome passed to \<^verbatim>\<open>task.resolve\<close> or \<^verbatim>\<open>task.reject\<close>;
  \<open>drains\<close>, the \<^verbatim>\<open>activeTasks\<close> of every call of \<^verbatim>\<open>processQueue\<close> suspended at
  \<^verbatim>\<open>await Promise.allSettled(activeTasks)\<close>; \<open>timers\<close>, the due times of the pending
  \<^verbatim>\<open>setTimeout(() => this.processQueue(), this.requestDelay)\<close>; and \<open>batchEnds\<close>, the
  log of the times at which a batch was found settled.
\<close>

record 'v RequestThrottle = "'v pending" +
  requestQueue :: "task list"
  isProcessing :: bool
  maxConcurrent :: nat
  requestDelay :: int
  now :: int
  next_tid :: nat
  dispatched :: "(nat \<times> int) list"
  settled :: "nat \<rightharpoonup> 'v outcome"
  drains :: "nat list list"
  timers :: "int list"
  batchEnds :: "int list"

definition new_RequestThrottle :: "'v RequestThrottle" where
  "new_RequestThrottle =
     \<lparr> pendingRequests = Map.empty, settledP = Map.empty, next_pid = 0, invoked = [],
       awaiting = [],
       requestQueue = [], isProcessing = False, maxConcurrent = 3, requestDelay = 100,
       now = 0, next_tid = 0, dispatched = [], settled = Map.empty, drains = [],
       timers = [], batchEnds = [] \<rparr>"

text \<open>
  \<^verbatim>\<open>executeRequest\<close> up to its \<^verbatim>\<open>await\<close>: the operation is invoked. When it throws
  before returning a promise, the \<^verbatim>\<open>catch\<close> branch rejects the task at once.
\<close>

definition executeRequest :: "task \<Rightarrow> 'v RequestThrottle \<Rightarrow> 'v RequestThrottle" where
  "executeRequest t s =
     (let s1 = s\<lparr>dispatched := dispatched s @ [(tid t, now s)]\<rparr>
      in case requestFn t of
           Returns \<Rightarrow> s1
         | SyncThrow e \<Rightarrow> s1\<lparr>settled := (settled s1)(tid t \<mapsto> Rejected e)\<rparr>)"

text \<open>The \<^verbatim>\<open>while\<close> loop of \<^verbatim>\<open>processQueue\<close>, with its local \<^verbatim>\<open>activeTasks\<close>.\<close>

function shift_loop ::
  "nat list \<Rightarrow> 'v RequestThrottle \<Rightarrow> nat list \<times> 'v RequestThrottle" where
  "shift_loop activeTasks s =
     (if length (requestQueue s) > 0 \<and> length activeTasks < maxConcurrent s then
        let t = hd (requestQueue s);
            s1 = s\<lparr>requestQueue := tl (requestQueue s)\<rparr>
        in shift_loop (activeTasks @ [tid t]) (executeRequest t s1)
      else (activeTasks, s))"
  by pat_completeness auto
termination
  by (relation "measure (\<lambda>(activeTasks, s). length (requestQueue s))")
     (auto simp: executeRequest_def Let_def split: requestFn.splits)

text \<open>\<^verbatim>\<open>processQueue\<close> up to \<^verbatim>\<open>await Promise.allSettled(activeTasks)\<close>.\<close>

definition processQueue :: "'v RequestThrottle \<Rightarrow> 'v RequestThrottle" where
  "processQueue s =
     (if isProcessing s \<or> length (requestQueue s) = 0 then s
      else
        let (activeTasks, s1) = shift_loop [] (s\<lparr>isProcessing := True\<rparr>)
        in s1\<lparr>drains := drains s1 @ [activeTasks]\<rparr>)"

text \<open>
  The rest of \<^verbatim>\<open>processQueue\<close>, run when every task of the \<open>i\<close>-th suspended call has
  settled.
\<close>

definition allSettled :: "nat \<Rightarrow> 'v RequestThrottle \<Rightarrow> 'v RequestThrottle" where
  "allSettled i s =
     (if i < length (drains s) \<and> list_all (\<lambda>t. settled s t \<noteq> None) (drains s ! i) then
        let s1 = s\<lparr>drains := take i (drains s) @ drop (Suc i) (drains s),
                   batchEnds := batchEnds s @ [now s],
                   isProcessing := False\<rparr>
        in if length (requestQueue s1) > 0
           then s1\<lparr>timers := timers s1 @ [now s1 + requestDelay s1]\<rparr>
           else s1
      else s)"

text \<open>
  \<^verbatim>\<open>Array.prototype.sort\<close> with the comparator \<^verbatim>\<open>(a, b) => b.priority - a.priority\<close> is
  a stable sort by descending priority; \<open>sort_key\<close> is a stable insertion sort.
\<close>

definition queueRequest ::
  "requestFn \<Rightarrow> int \<Rightarrow> 'v RequestThrottle \<Rightarrow> nat \<times> 'v RequestThrottle" where
  "queueRequest fn prio s =
     (let t = \<lparr> tid = next_tid s, requestFn = fn, priority = prio, timestamp = now s \<rparr>;
          s1 = s\<lparr>requestQueue := requestQueue s @ [t], next_tid := next_tid s + 1\<rparr>;
          s2 = s1\<lparr>requestQueue := sort_key (\<lambda>a. - priority a) (requestQueue s1)\<rparr>
      in (tid t, processQueue s2))"

text \<open>The continuation of \<^verbatim>\<open>executeRequest\<close>: the operation of a dispatched task settles.\<close>

definition taskSettles :: "nat \<Rightarrow> 'v outcome \<Rightarrow> 'v RequestThrottle \<Rightarrow> 'v RequestThrottle" where
  "taskSettles t out s =
     (if t \<in> fst ` set (dispatched s) \<and> settled s t = None
      then s\<lparr>settled := (settled s)(t \<mapsto> out)\<rparr> else s)"

text \<open>A timer set by \<^verbatim>\<open>processQueue\<close> fires once its delay has elapsed.\<close>

definition timerFires :: "nat \<Rightarrow> 'v RequestThrottle \<Rightarrow> 'v RequestThrottle" where
  "timerFires i s =
     (if i < length (timers s) \<and> timers s ! i \<le> now s
      then processQueue (s\<lparr>timers := take i (timers s) @ drop (Suc i) (timers s)\<rparr>)
      else s)"

text \<open>The clean-up registered with \<^verbatim>\<open>setInterval\<close> at the end of the module.\<close>

definition sweep :: "'v RequestThrottle \<Rightarrow> 'v RequestThrottle" where
  "sweep s = s\<lparr>requestQueue := filter (\<lambda>t. now s - timestamp t < 30000) (requestQueue s)\<rparr>"

text \<open>\<^verbatim>\<open>clear()\<close>: "Clear all pending requests".\<close>

definition clear_throttle :: "'v RequestThrottle \<Rightarrow> 'v RequestThrottle" where
  "clear_throttle s = s\<lparr>requestQueue := [], pendingRequests := Map.empty, isProcessing := False\<rparr>"

definition deduplicateRequest ::
  "key \<Rightarrow> requestFn \<Rightarrow> 'v RequestThrottle \<Rightarrow> pid \<times> 'v RequestThrottle" where
  "deduplicateRequest k fn s =
     (case pendingRequests s k of
        Some p \<Rightarrow> (p, s)
      | None \<Rightarrow>
          let promise = next_pid s;
              s1 = s\<lparr>next_pid := promise + 1, invoked := invoked s @ [(k, promise)]\<rparr>
          in case fn of
               SyncThrow e \<Rightarrow> (promise, s1\<lparr>settledP := (settledP s1)(promise \<mapsto> Rejected e)\<rparr>)
             | Returns \<Rightarrow>
                 (promise, s1\<lparr>pendingRequests := (pendingRequests s1)(k \<mapsto> promise),
                               awaiting := awaiting s1 @ [(promise, k)]\<rparr>))"

text \<open>
  The events of the queue: a submission, the settlement of a dispatched operation, the
  resumption of a suspended \<^verbatim>\<open>processQueue\<close>, a timer, the clean-up interval, a call of
  \<^verbatim>\<open>clear()\<close>, and the passing of time.
\<close>

datatype 'v throttle_event =
    Submit requestFn int
  | TaskSettles nat "'v outcome"
  | AllSettled nat
  | TimerFires nat
  | Sweep
  | Clear
  | Tick nat

fun throttle_step :: "'v throttle_event \<Rightarrow> 'v RequestThrottle \<Rightarrow> 'v RequestThrottle" where
  "throttle_step (Submit fn prio) s = snd (queueRequest fn prio s)"
| "throttle_step (TaskSettles t out) s = taskSettles t out s"
| "throttle_step (AllSettled i) s = allSettled i s"
| "throttle_step (TimerFires i) s = timerFires i s"
| "throttle_step Sweep s = sweep s"
| "throttle_step Clear s = clear_throttle s"
| "throttle_step (Tick d) s = s\<lparr>now := now s + int d\<rparr>"

definition throttle_run ::
  "'v throttle_event list \<Rightarrow> 'v RequestThrottle \<Rightarrow> 'v RequestThrottle" where
  "throttle_run evs s = fold throttle_step evs s"

text \<open>The tasks that have been dispatched and have not settled.\<close>

definition unsettled :: "'v RequestThrottle \<Rightarrow> nat list" where
  "unsettled s = filter (\<lambda>t. settled s t = None) (map fst (dispatched s))"

text \<open>The order of the waiting queue: higher priority first, earlier submission first among equals.\<close>

definition goes_before :: "task \<Rightarrow> task \<Rightarrow> bool" where
  "goes_before a b = (priority a > priority b \<or> (priority a = priority b \<and> tid a < tid b))"

text \<open>The tasks of a batch whose operation threw at once are rejected on the spot.\<close>

definition sync_rejects :: "task list \<Rightarrow> (nat \<rightharpoonup> 'v outcome) \<Rightarrow> (nat \<rightharpoonup> 'v outcome)" where
  "sync_rejects ts m =
     fold (\<lambda>t m. case requestFn t of Returns \<Rightarrow> m | SyncThrow e \<Rightarrow> m(tid t \<mapsto> Rejected e)) ts m"

text \<open>
  What every run from a fresh queue keeps: task numbers are unique and below
  \<open>next_tid\<close>; a waiting task has not been dispatched; only dispatched tasks are settled;
  the waiting queue is in order.
\<close>

definition queue_ok :: "'v RequestThrottle \<Rightarrow> bool" where
  "queue_ok s =
     (distinct (map tid (requestQueue s)) \<and>
      (\<forall>t \<in> set (requestQueue s). tid t < next_tid s \<and> tid t \<notin> fst ` set (dispatched s)) \<and>
      (\<forall>t \<in> fst ` set (dispatched s). t < next_tid s) \<and>
      (\<forall>t. settled s t \<noteq> None \<longrightarrow> t \<in> fst ` set (dispatched s)) \<and>
      sorted_wrt goes_before (requestQueue s))"

text \<open>
  What a run keeps as long as \<^verbatim>\<open>clear()\<close> is not called during a drain: a call of
  \<^verbatim>\<open>processQueue\<close> is suspended exactly while \<^verbatim>\<open>isProcessing\<close> is set, with at most
  \<^verbatim>\<open>maxConcurrent\<close> tasks, and every dispatched task that has not settled belongs to it.
\<close>

definition drain_ok :: "'v RequestThrottle \<Rightarrow> bool" where
  "drain_ok s =
     (distinct (map fst (dispatched s)) \<and>
      (if isProcessing s then length (drains s) = 1 else drains s = []) \<and>
      (\<forall>d \<in> set (drains s). length d \<le> maxConcurrent s) \<and>
      (\<forall>t \<in> set (unsettled s). t \<in> \<Union> (set ` set (drains s))))"

text \<open>Every \<^verbatim>\<open>clear()\<close> of a run happens while no drain is active.\<close>

fun clears_idle :: "'v throttle_event list \<Rightarrow> 'v RequestThrottle \<Rightarrow> bool" where
  "clears_idle [] s = True"
| "clears_idle (e # evs) s =
     ((e = Clear \<longrightarrow> \<not> isProcessing s) \<and> clears_idle evs (throttle_step e s))"

text \<open>A task that has left the queue without being dispatched or settled.\<close>

definition dropped :: "nat \<Rightarrow> 'v RequestThrottle \<Rightarrow> bool" where
  "dropped x s =
     (x < next_tid s \<and> x \<notin> tid ` set (requestQueue s) \<and> x \<notin> fst ` set (dispatched s) \<and>
      settled s x = None)"

section \<open>The cache-aware fetch hook (\<^verbatim>\<open>useApiCache.fetchData\<close>)\<close>

text \<open>
  The options of one use of the hook. \<open>apiFunction n\<close> is the outcome of the promise
  that the \<open>n\<close>-th invocation of the operation returns (counting from zero).
\<close>

record 'v options =
  finalCacheKey :: key
  cacheDuration :: int
  enabled :: bool
  retryCount :: nat
  retryDelay :: int
  apiFunction :: "nat \<Rightarrow> 'v outcome"

text \<open>
  A suspended continuation, named after the \<^verbatim>\<open>await\<close> it stands at:
  \<^item> \<open>JoinWait f p\<close>: the call of \<^verbatim>\<open>fetchData\<close> with result promise \<open>f\<close> awaits the
    registered promise \<open>p\<close> (\<^verbatim>\<open>await pendingRequests.get(finalCacheKey)\<close>);
  \<^item> \<open>ApiWait r a now0\<close>: the request promise \<open>r\<close> awaits the promise \<open>a\<close> of the operation
    (\<^verbatim>\<open>await apiFunction()\<close>); \<open>now0\<close> is the \<^verbatim>\<open>now\<close> captured by the call;
  \<^item> \<open>DelayWait r t\<close>: the request promise \<open>r\<close> awaits the retry timer \<open>t\<close>;
  \<^item> \<open>Adopt r f\<close>: the request promise \<open>r\<close> has returned the promise \<open>f\<close> of
    \<^verbatim>\<open>fetchData(true)\<close> and settles as \<open>f\<close> does;
  \<^item> \<open>ReqWait f r\<close>: the call with result promise \<open>f\<close> awaits its request promise \<open>r\<close>
    (\<^verbatim>\<open>await requestPromise\<close>).
\<close>

datatype frame =
    JoinWait pid pid
  | ApiWait pid pid int
  | DelayWait pid pid
  | Adopt pid pid
  | ReqWait pid pid

text \<open>
  The module state (\<open>globalCache\<close>, \<open>pendingRequests_hook\<close>), the state of one hook
  instance (\<open>retryCountRef\<close>, \<open>mountedRef\<close>, the React state), and what the event loop
  holds: the settlement of every promise of the hook (\<open>Fulfilled None\<close> is a promise
  resolved with \<^verbatim>\<open>undefined\<close>), the number of invocations of the operation, the
  operations' promises with the outcome they will settle with, the settled ones, the
  pending retry timers with their due times, the suspended continuations and the clock.
\<close>

record 'v hook_state =
  globalCache :: "key \<rightharpoonup> 'v entry"
  pendingRequests_hook :: "key \<rightharpoonup> pid"
  retryCountRef :: nat
  mountedRef :: bool
  data_state :: "'v option"
  loading_state :: bool
  error_state :: "err option"
  promises :: "pid \<rightharpoonup> 'v option outcome"
  next_promise :: pid
  apiCallCount :: nat
  apiPending :: "(pid \<times> 'v outcome) list"
  apiSettled :: "pid \<rightharpoonup> 'v outcome"
  retryTimers :: "(pid \<times> int) list"
  frames :: "frame list"
  clock :: int

definition new_hook_state :: "'v hook_state" where
  "new_hook_state =
     \<lparr> globalCache = Map.empty, pendingRequests_hook = Map.empty, retryCountRef = 0,
       mountedRef = True, data_state = None, loading_state = False, error_state = None,
       promises = Map.empty, next_promise = 0, apiCallCount = 0, apiPending = [],
       apiSettled = Map.empty, retryTimers = [], frames = [], clock = 0 \<rparr>"

text \<open>
  \<^verbatim>\<open>fetchData\<close> from the pending-request check on, for the call with result promise \<open>f\<close>:
  join a registered request; otherwise (when mounted) start the request promise, which
  invokes the operation at once, register it and await it.
\<close>

definition fetchData_request ::
  "'v options \<Rightarrow> pid \<Rightarrow> int \<Rightarrow> 'v hook_state \<Rightarrow> 'v hook_state" where
  "fetchData_request opts f now0 s =
     (case pendingRequests_hook s (finalCacheKey opts) of
        Some p \<Rightarrow> s\<lparr>frames := frames s @ [JoinWait f p]\<rparr>
      | None \<Rightarrow>
          if \<not> mountedRef s then s\<lparr>promises := (promises s)(f \<mapsto> Fulfilled None)\<rparr>
          else
            let requestPromise = next_promise s;
                a = requestPromise + 1
            in s\<lparr>loading_state := True, error_state := None,
                 next_promise := requestPromise + 2,
                 apiCallCount := apiCallCount s + 1,
                 apiPending := apiPending s @ [(a, apiFunction opts (apiCallCount s))],
                 frames := frames s @ [ApiWait requestPromise a now0, ReqWait f requestPromise],
                 pendingRequests_hook :=
                   (pendingRequests_hook s)(finalCacheKey opts \<mapsto> requestPromise)\<rparr>)"

text \<open>\<^verbatim>\<open>fetchData(isRetry)\<close> up to its first \<^verbatim>\<open>await\<close>; the result is the promise it returns.\<close>

definition fetchData :: "'v options \<Rightarrow> bool \<Rightarrow> 'v hook_state \<Rightarrow> pid \<times> 'v hook_state" where
  "fetchData opts isRetry s0 =
     (let f = next_promise s0;
          s = s0\<lparr>next_promise := f + 1\<rparr>
      in if \<not> enabled opts then (f, s\<lparr>promises := (promises s)(f \<mapsto> Fulfilled None)\<rparr>)
         else
           let now0 = clock s
           in case globalCache s (finalCacheKey opts) of
                None \<Rightarrow> (f, fetchData_request opts f now0 s)
              | Some cached \<Rightarrow>
                  if now0 - entry.timestamp cached < cacheDuration opts \<and> \<not> isRetry
                  then (f, s\<lparr>data_state := Some (data cached), loading_state := False,
                             error_state := None,
                             promises := (promises s)(f \<mapsto> Fulfilled (Some (data cached)))\<rparr>)
                  else (f, fetchData_request opts f now0 s))"

text \<open>A continuation can run once the promise it awaits has settled.\<close>

fun runnable :: "'v hook_state \<Rightarrow> frame \<Rightarrow> bool" where
  "runnable s (JoinWait f p) = (promises s p \<noteq> None)"
| "runnable s (ApiWait r a now0) = (apiSettled s a \<noteq> None)"
| "runnable s (DelayWait r t) = (promises s t \<noteq> None)"
| "runnable s (Adopt r f) = (promises s f \<noteq> None)"
| "runnable s (ReqWait f r) = (promises s r \<noteq> None)"

text \<open>The code after each \<^verbatim>\<open>await\<close>.\<close>

fun resume_frame :: "'v options \<Rightarrow> frame \<Rightarrow> 'v hook_state \<Rightarrow> 'v hook_state" where
  "resume_frame opts (JoinWait f p) s =
     (case promises s p of
        None \<Rightarrow> s
      | Some (Fulfilled result) \<Rightarrow>
          (if mountedRef s
           then s\<lparr>data_state := result, loading_state := False, error_state := None\<rparr>
           else s)\<lparr>promises := (promises s)(f \<mapsto> Fulfilled result)\<rparr>
      | Some (Rejected e) \<Rightarrow>
          (if mountedRef s then s\<lparr>error_state := Some e, loading_state := False\<rparr> else s)
            \<lparr>promises := (promises s)(f \<mapsto> Rejected e)\<rparr>)"
| "resume_frame opts (ApiWait r a now0) s =
     (case apiSettled s a of
        None \<Rightarrow> s
      | Some (Fulfilled result) \<Rightarrow>
          s\<lparr>globalCache := (globalCache s)(finalCacheKey opts \<mapsto>
                               \<lparr>data = result, entry.timestamp = now0\<rparr>),
            retryCountRef := 0,
            promises := (promises s)(r \<mapsto> Fulfilled (Some result))\<rparr>
      | Some (Rejected e) \<Rightarrow>
          if retryCountRef s < retryCount opts then
            let n = retryCountRef s + 1;
                t = next_promise s
            in s\<lparr>retryCountRef := n, next_promise := t + 1,
                 retryTimers := retryTimers s @ [(t, clock s + retryDelay opts * int n)],
                 frames := frames s @ [DelayWait r t]\<rparr>
          else s\<lparr>promises := (promises s)(r \<mapsto> Rejected e)\<rparr>)"
| "resume_frame opts (DelayWait r t) s =
     (let (f, s1) = fetchData opts True s
      in s1\<lparr>frames := frames s1 @ [Adopt r f]\<rparr>)"
| "resume_frame opts (Adopt r f) s =
     (case promises s f of
        None \<Rightarrow> s
      | Some out \<Rightarrow> s\<lparr>promises := (promises s)(r \<mapsto> out)\<rparr>)"
| "resume_frame opts (ReqWait f r) s =
     (case promises s r of
        None \<Rightarrow> s
      | Some (Fulfilled result) \<Rightarrow>
          (if mountedRef s then s\<lparr>data_state := result, loading_state := False\<rparr> else s)
            \<lparr>promises := (promises s)(f \<mapsto> Fulfilled result),
             pendingRequests_hook := (pendingRequests_hook s)(finalCacheKey opts := None)\<rparr>
      | Some (Rejected e) \<Rightarrow>
          (if mountedRef s then s\<lparr>error_state := Some e, loading_state := False\<rparr> else s)
            \<lparr>promises := (promises s)(f \<mapsto> Rejected e),
             pendingRequests_hook := (pendingRequests_hook s)(finalCacheKey opts := None)\<rparr>)"

text \<open>
  One turn of the event loop: the first continuation that can run; if there is none,
  the settlement of the oldest outstanding operation; if there is none, the oldest retry
  timer. \<open>None\<close>: nothing is left to run.
\<close>

definition hook_step :: "'v options \<Rightarrow> 'v hook_state \<Rightarrow> 'v hook_state option" where
  "hook_step opts s =
     (case filter (runnable s) (frames s) of
        fr # _ \<Rightarrow> Some (resume_frame opts fr (s\<lparr>frames := remove1 fr (frames s)\<rparr>))
      | [] \<Rightarrow>
          (case apiPending s of
             (a, out) # rest \<Rightarrow>
               Some (s\<lparr>apiPending := rest, apiSettled := (apiSettled s)(a \<mapsto> out)\<rparr>)
           | [] \<Rightarrow>
               (case retryTimers s of
                  (t, due) # rest \<Rightarrow>
                    Some (s\<lparr>retryTimers := rest, clock := max (clock s) due,
                            promises := (promises s)(t \<mapsto> Fulfilled None)\<rparr>)
                | [] \<Rightarrow> None)))"

fun hook_run :: "'v options \<Rightarrow> nat \<Rightarrow> 'v hook_state \<Rightarrow> 'v hook_state" where
  "hook_run opts 0 s = s"
| "hook_run opts (Suc n) s =
     (case hook_step opts s of None \<Rightarrow> s | Some s' \<Rightarrow> hook_run opts n s')"

section \<open>Properties of the response cache\<close>

text \<open>
  Claim C3, as amended. For every key, value, cache and pair of times \<open>T\<close> (store) and
  \<open>T'\<close> (read), \<^verbatim>\<open>get(key)\<close> at \<open>T'\<close> returns the stored value unchanged, and leaves the
  cache as it was, when \<open>T' - T \<le> ttl\<close>; when \<open>T' - T > ttl\<close> it returns \<^verbatim>\<open>null\<close> and
  deletes the entry as a side effect of the lookup. The time-to-live is the
  \<^verbatim>\<open>cacheTimeout\<close> field of the cache.
\<close>

theorem get_cache_ttl:
  "get_cache T' k (set_cache T k v c) =
     (if T' - T \<le> cacheTimeout c then (Some v, set_cache T k v c)
      else (None, delete_cache k (set_cache T k v c)))"
  by (simp add: get_cache_def set_cache_def delete_cache_def)

theorem get_cache_ttl_witness:
  "get_cache 299999 ''GET:/user/me:'' (set_cache 0 ''GET:/user/me:'' (7::nat) new_RequestCache) =
     (Some 7, set_cache 0 ''GET:/user/me:'' 7 new_RequestCache) \<and>
   get_cache 300001 ''GET:/user/me:'' (set_cache 0 ''GET:/user/me:'' (7::nat) new_RequestCache) =
     (None, delete_cache ''GET:/user/me:'' (set_cache 0 ''GET:/user/me:'' 7 new_RequestCache))"
  using get_cache_ttl [of 299999 "''GET:/user/me:''" 0 "7::nat" new_RequestCache]
        get_cache_ttl [of 300001 "''GET:/user/me:''" 0 "7::nat" new_RequestCache]
  by (simp add: new_RequestCache_def set_cache_def)

text \<open>
  Claim C3 as stated says that a read at the exact boundary \<open>T' - T = ttl\<close> returns
  absent and evicts the entry. The comparison in \<^verbatim>\<open>get\<close> is strict
  (\<^verbatim>\<open>now - cached.timestamp > this.cacheTimeout\<close>), so at the boundary the value is
  still returned and the entry stays.
\<close>

theorem get_cache_boundary_counterexample:
  "cacheTimeout (new_RequestCache :: nat RequestCache) = 300000 \<and>
   fst (get_cache 300000 ''k'' (set_cache 0 ''k'' (7::nat) new_RequestCache)) = Some 7 \<and>
   cache (snd (get_cache 300000 ''k'' (set_cache 0 ''k'' (7::nat) new_RequestCache))) ''k''
     = Some \<lparr>data = 7, entry.timestamp = 0\<rparr>"
  by (simp add: get_cache_def set_cache_def new_RequestCache_def)

text \<open>
  Claim C4 at concrete inputs. \<^verbatim>\<open>getCacheTimeout\<close> computes the tier (ten minutes for
  \<^verbatim>\<open>/kategori/\<close>, two minutes for \<^verbatim>\<open>/kuis/\<close>, zero for \<^verbatim>\<open>POST\<close>), but neither \<^verbatim>\<open>get\<close>,
  \<^verbatim>\<open>set\<close> nor the periodic clean-up consults it: every entry lives for the five minutes
  of \<^verbatim>\<open>cacheTimeout\<close>. A master-data entry is gone after seven minutes, a dynamic entry
  is still served and kept by the clean-up after three, and an entry stored under a
  \<^verbatim>\<open>POST\<close> key is cached like any other.
\<close>

theorem cache_ignores_tiers:
  "getCacheTimeout (new_RequestCache :: nat RequestCache) ''/kategori/get-kategori'' ''GET''
     = 600000 \<and>
   fst (get_cache 420000 (generateKey ''/kategori/get-kategori'' ''GET'' None)
         (set_cache 0 (generateKey ''/kategori/get-kategori'' ''GET'' None) (1::nat)
            new_RequestCache)) = None \<and>
   cache (cleanup_cache 420000
           (set_cache 0 (generateKey ''/kategori/get-kategori'' ''GET'' None) (1::nat)
              new_RequestCache))
         (generateKey ''/kategori/get-kategori'' ''GET'' None) = None \<and>
   getCacheTimeout (new_RequestCache :: nat RequestCache) ''/kuis/get-kuis'' ''get'' = 120000 \<and>
   fst (get_cache 180000 (generateKey ''/kuis/get-kuis'' ''GET'' None)
         (set_cache 0 (generateKey ''/kuis/get-kuis'' ''GET'' None) (2::nat)
            new_RequestCache)) = Some 2 \<and>
   cache (cleanup_cache 180000
           (set_cache 0 (generateKey ''/kuis/get-kuis'' ''GET'' None) (2::nat)
              new_RequestCache))
         (generateKey ''/kuis/get-kuis'' ''GET'' None) = Some \<lparr>data = 2, entry.timestamp = 0\<rparr> \<and>
   getCacheTimeout (new_RequestCache :: nat RequestCache) ''/kelas/add-kelas'' ''post'' = 0 \<and>
   fst (get_cache 1000 (generateKey ''/kelas/add-kelas'' ''POST'' (Some ''{}''))
         (set_cache 0 (generateKey ''/kelas/add-kelas'' ''POST'' (Some ''{}'')) (3::nat)
            new_RequestCache)) = Some 3"
  by (simp add: getCacheTimeout_def cacheConfig_def masterData_def userData_def
      dynamicData_def noCache_methods_def toUpperCase_def upper_char_def
      get_cache_def set_cache_def cleanup_cache_def new_RequestCache_def prefix_code)

section \<open>Properties of the deduplicator\<close>


lemma pending_ok_fresh: "pending_ok s \<Longrightarrow> fresh_ok s"
  by (simp add: pending_ok_def)

lemma fresh_ok_step: "fresh_ok s \<Longrightarrow> fresh_ok (dedup_step e s)"
  by (cases e)
     (auto simp: fresh_ok_def deduplicate_def settle_def resume_def clear_pending_def Let_def
        split: option.splits requestFn.splits)

lemma fresh_ok_run: "fresh_ok s \<Longrightarrow> fresh_ok (dedup_run evs s)"
  unfolding dedup_run_def
  by (induction evs arbitrary: s) (simp_all add: fresh_ok_step)

lemma pending_ok_deduplicate:
  "pending_ok s \<Longrightarrow> pending_ok (snd (deduplicate k f s))"
  unfolding pending_ok_def fresh_ok_def deduplicate_def
  by (cases f) (auto simp: Let_def list_all_iff split: option.splits)

lemma pending_ok_settle: "pending_ok s \<Longrightarrow> pending_ok (settle p out s)"
  unfolding pending_ok_def fresh_ok_def settle_def by (auto simp: list_all_iff)

lemma pending_ok_resume:
  assumes ok: "pending_ok s"
  shows "pending_ok (resume p s)"
proof (cases "settledP s p")
  case None
  with ok show ?thesis by (simp add: resume_def)
next
  case (Some out)
  have 1: "\<And>q k. (q, k) \<in> set (awaiting s) \<Longrightarrow> pendingRequests s k = Some q \<and> q < next_pid s"
    using ok by (auto simp: pending_ok_def list_all_iff)
  have 2: "\<And>q k. pendingRequests s k = Some q \<Longrightarrow> (q, k) \<in> set (awaiting s)"
    using ok by (auto simp: pending_ok_def)
  have 3: "\<And>q. next_pid s \<le> q \<Longrightarrow> settledP s q = None"
    using ok by (auto simp: pending_ok_def fresh_ok_def)
  have uniq: "\<And>q k. (q, k) \<in> set (awaiting s) \<Longrightarrow> (p, k) \<in> set (awaiting s) \<Longrightarrow> q = p"
  proof -
    fix q k assume "(q, k) \<in> set (awaiting s)" "(p, k) \<in> set (awaiting s)"
    then have "pendingRequests s k = Some q" "pendingRequests s k = Some p"
      using 1 by blast+
    then show "q = p" by simp
  qed
  have a: "list_all (\<lambda>(q, k). pendingRequests (resume p s) k = Some q \<and> q < next_pid (resume p s)) (awaiting (resume p s))"
    using Some 1 uniq by (auto simp: resume_def list_all_iff)
  have b: "\<forall>k q. pendingRequests (resume p s) k = Some q \<longrightarrow> (q, k) \<in> set (awaiting (resume p s))"
    using Some 2 by (auto simp: resume_def split: if_splits)
  have c: "\<forall>q. next_pid (resume p s) \<le> q \<longrightarrow> settledP (resume p s) q = None"
    using Some 3 by (auto simp: resume_def)
  show ?thesis
    unfolding pending_ok_def fresh_ok_def using a b c by blast
qed

lemma pending_ok_clear: "pending_ok s \<Longrightarrow> awaiting s = [] \<Longrightarrow> pending_ok (clear_pending s)"
  by (simp add: pending_ok_def fresh_ok_def clear_pending_def)

lemma pending_ok_step:
  "pending_ok s \<Longrightarrow> e = ClearPending \<longrightarrow> awaiting s = [] \<Longrightarrow> pending_ok (dedup_step e s)"
  by (cases e)
     (simp_all add: pending_ok_deduplicate pending_ok_settle pending_ok_resume pending_ok_clear)

lemma pending_ok_run: "pending_ok s \<Longrightarrow> clears_quiet evs s \<Longrightarrow> pending_ok (dedup_run evs s)"
  unfolding dedup_run_def
  by (induction evs arbitrary: s) (simp_all add: pending_ok_step)


lemma settled_stays_step:
  assumes "fresh_ok s" "settledP s p = Some out"
  shows "settledP (dedup_step e s) p = Some out"
proof -
  have "p < next_pid s"
    using assms by (fastforce simp: fresh_ok_def not_le[symmetric])
  with assms(2) show ?thesis
    by (cases e) (auto simp: deduplicate_def settle_def resume_def clear_pending_def Let_def
        split: option.splits requestFn.splits)
qed

lemma settled_stays_run:
  "fresh_ok s \<Longrightarrow> settledP s p = Some out \<Longrightarrow> settledP (dedup_run evs s) p = Some out"
  unfolding dedup_run_def
  by (induction evs arbitrary: s) (simp_all add: settled_stays_step fresh_ok_step)


text \<open>The invariant of one key.\<close>

lemma key_ok_fresh: "key_ok k s \<Longrightarrow> fresh_ok s"
  by (simp add: key_ok_def)

lemma key_ok_start:
  "pendingRequests s = Map.empty \<Longrightarrow> awaiting s = [] \<Longrightarrow> settledP s = Map.empty \<Longrightarrow> key_ok k s"
  by (simp add: key_ok_def fresh_ok_def)

lemma key_ok_awaits:
  assumes "key_ok k s"
  shows "(q, k) \<in> set (awaiting s) \<longleftrightarrow> pendingRequests s k = Some q"
    and "pendingRequests s k = Some q \<Longrightarrow> q < next_pid s"
    and "pendingRequests s k = Some q \<Longrightarrow> k \<in> snd ` set (awaiting s)"
    and "pendingRequests s k = None \<Longrightarrow> k \<notin> snd ` set (awaiting s)"
proof -
  have 1: "\<And>p. (p, k) \<in> set (awaiting s) \<Longrightarrow> pendingRequests s k = Some p \<and> p < next_pid s"
    using assms by (auto simp: key_ok_def list_all_iff)
  have 2: "\<And>p. pendingRequests s k = Some p \<Longrightarrow> (p, k) \<in> set (awaiting s)"
    using assms by (simp add: key_ok_def)
  show "(q, k) \<in> set (awaiting s) \<longleftrightarrow> pendingRequests s k = Some q"
    using 1 2 by blast
  show "pendingRequests s k = Some q \<Longrightarrow> q < next_pid s"
    using 1 2 by blast
  show "pendingRequests s k = Some q \<Longrightarrow> k \<in> snd ` set (awaiting s)"
    using 2 by (force simp: image_iff)
  show "pendingRequests s k = None \<Longrightarrow> k \<notin> snd ` set (awaiting s)"
    using 1 by (force simp: image_iff)
qed

lemma key_okI:
  assumes "\<And>p. (p, k) \<in> set (awaiting s) \<Longrightarrow> pendingRequests s k = Some p \<and> p < next_pid s"
    and "\<And>p. pendingRequests s k = Some p \<Longrightarrow> (p, k) \<in> set (awaiting s)"
    and "fresh_ok s"
  shows "key_ok k s"
proof -
  have "list_all (\<lambda>(p, k'). k' = k \<longrightarrow> pendingRequests s k = Some p \<and> p < next_pid s) (awaiting s)"
    unfolding list_all_iff using assms(1) by fast
  with assms(2,3) show ?thesis
    unfolding key_ok_def by fast
qed

lemma key_ok_deduplicate:
  assumes ok: "key_ok k s"
  shows "key_ok k (snd (deduplicate k' f s))"
proof -
  have 1: "\<And>p. (p, k) \<in> set (awaiting s) \<Longrightarrow> pendingRequests s k = Some p \<and> p < next_pid s"
    using key_ok_awaits[OF ok] by blast
  have 2: "\<And>p. pendingRequests s k = Some p \<Longrightarrow> (p, k) \<in> set (awaiting s)"
    using key_ok_awaits(1)[OF ok] by blast
  have 3: "fresh_ok (snd (deduplicate k' f s))"
    using fresh_ok_step[OF key_ok_fresh[OF ok], of "Call k' f"] by simp
  show ?thesis
  proof (rule key_okI[OF _ _ 3])
    fix p assume "(p, k) \<in> set (awaiting (snd (deduplicate k' f s)))"
    then show "pendingRequests (snd (deduplicate k' f s)) k = Some p \<and> p < next_pid (snd (deduplicate k' f s))"
      using 1 by (cases f) (fastforce simp: deduplicate_def Let_def split: option.splits if_splits)+
  next
    fix p assume "pendingRequests (snd (deduplicate k' f s)) k = Some p"
    then show "(p, k) \<in> set (awaiting (snd (deduplicate k' f s)))"
      using 2 by (cases f) (auto simp: deduplicate_def Let_def split: option.splits if_splits)
  qed
qed

lemma key_ok_settle: "key_ok k s \<Longrightarrow> key_ok k (settle p out s)"
  unfolding key_ok_def fresh_ok_def settle_def by (auto simp: list_all_iff)

lemma key_ok_resume:
  assumes ok: "key_ok k s"
  shows "key_ok k (resume p s)"
proof (cases "settledP s p")
  case None
  with ok show ?thesis by (simp add: resume_def)
next
  case (Some out)
  have 1: "\<And>q. (q, k) \<in> set (awaiting s) \<Longrightarrow> pendingRequests s k = Some q \<and> q < next_pid s"
    using key_ok_awaits[OF ok] by blast
  have 2: "\<And>q. pendingRequests s k = Some q \<Longrightarrow> (q, k) \<in> set (awaiting s)"
    using key_ok_awaits(1)[OF ok] by blast
  have uniq: "\<And>q. (q, k) \<in> set (awaiting s) \<Longrightarrow> (p, k) \<in> set (awaiting s) \<Longrightarrow> q = p"
  proof -
    fix q assume "(q, k) \<in> set (awaiting s)" "(p, k) \<in> set (awaiting s)"
    then have "pendingRequests s k = Some q" "pendingRequests s k = Some p"
      using 1 by blast+
    then show "q = p" by simp
  qed
  have 3: "fresh_ok (resume p s)"
    using fresh_ok_step[OF key_ok_fresh[OF ok], of "Resume p"] by simp
  show ?thesis
  proof (rule key_okI[OF _ _ 3])
    fix q assume "(q, k) \<in> set (awaiting (resume p s))"
    then show "pendingRequests (resume p s) k = Some q \<and> q < next_pid (resume p s)"
      using Some 1 uniq by (auto simp: resume_def)
  next
    fix q assume "pendingRequests (resume p s) k = Some q"
    then show "(q, k) \<in> set (awaiting (resume p s))"
      using Some 2 by (auto simp: resume_def split: if_splits)
  qed
qed

lemma key_ok_clear:
  "key_ok k s \<Longrightarrow> k \<notin> snd ` set (awaiting s) \<Longrightarrow> key_ok k (clear_pending s)"
  by (force simp: key_ok_def fresh_ok_def clear_pending_def list_all_iff image_iff)

lemma key_ok_step:
  "key_ok k s \<Longrightarrow> e = ClearPending \<longrightarrow> k \<notin> snd ` set (awaiting s) \<Longrightarrow> key_ok k (dedup_step e s)"
  by (cases e) (simp_all add: key_ok_deduplicate key_ok_settle key_ok_resume key_ok_clear)

lemma key_ok_run: "key_ok k s \<Longrightarrow> clears_spare k evs s \<Longrightarrow> key_ok k (dedup_run evs s)"
  unfolding dedup_run_def
  by (induction evs arbitrary: s) (simp_all add: key_ok_step)

lemma clears_spare_append:
  "clears_spare k (evs @ evs') s \<longleftrightarrow> clears_spare k evs s \<and> clears_spare k evs' (dedup_run evs s)"
  unfolding dedup_run_def
  by (induction evs arbitrary: s) simp_all

text \<open>While \<open>p\<close> is registered for \<open>k\<close>: events other than its own continuation keep it so.\<close>

lemma registered_step:
  assumes ok: "key_ok k s" and reg: "pendingRequests s k = Some p"
    and cl: "e = ClearPending \<longrightarrow> k \<notin> snd ` set (awaiting s)"
    and re: "e = Resume p \<longrightarrow> settledP s p = None"
  shows "key_ok k (dedup_step e s) \<and> pendingRequests (dedup_step e s) k = Some p \<and>
         filter (\<lambda>(k', q). k' = k) (invoked (dedup_step e s)) = filter (\<lambda>(k', q). k' = k) (invoked s) \<and>
         (settledP s p = None \<and> (\<forall>out. e \<noteq> Settle p out) \<longrightarrow> settledP (dedup_step e s) p = None)"
proof -
  have nc: "e \<noteq> ClearPending"
    using cl key_ok_awaits(3)[OF ok reg] by blast
  have lt: "p < next_pid s"
    using key_ok_awaits(2)[OF ok reg] .
  have other: "\<And>q. (q, k) \<in> set (awaiting s) \<Longrightarrow> q = p"
    using key_ok_awaits(1)[OF ok] reg by simp
  have "pendingRequests (dedup_step e s) k = Some p \<and>
        filter (\<lambda>(k', q). k' = k) (invoked (dedup_step e s)) = filter (\<lambda>(k', q). k' = k) (invoked s) \<and>
        (settledP s p = None \<and> (\<forall>out. e \<noteq> Settle p out) \<longrightarrow> settledP (dedup_step e s) p = None)"
  proof (cases e)
    case (Call k' f)
    then show ?thesis using reg lt
      by (cases "k' = k"; cases f)
         (auto simp: deduplicate_def Let_def split: option.splits)
  next
    case (Settle q out)
    then show ?thesis using reg by (auto simp: settle_def)
  next
    case (Resume q)
    then show ?thesis using reg other re
      by (auto simp: resume_def split: option.splits)
  next
    case ClearPending
    with nc show ?thesis by simp
  qed
  then show ?thesis
    using ok cl by (simp add: key_ok_step)
qed

lemma registered_run:
  "key_ok k s \<Longrightarrow> pendingRequests s k = Some p \<Longrightarrow> clears_spare k evs s \<Longrightarrow>
   settledP s p = None \<and> (\<forall>out. Settle p out \<notin> set evs) \<or> Resume p \<notin> set evs \<Longrightarrow>
   key_ok k (dedup_run evs s) \<and> pendingRequests (dedup_run evs s) k = Some p \<and>
   filter (\<lambda>(k', q). k' = k) (invoked (dedup_run evs s)) = filter (\<lambda>(k', q). k' = k) (invoked s) \<and>
   (settledP s p = None \<and> (\<forall>out. Settle p out \<notin> set evs) \<longrightarrow> settledP (dedup_run evs s) p = None)"
  unfolding dedup_run_def
proof (induction evs arbitrary: s)
  case Nil
  then show ?case by simp
next
  case (Cons e evs)
  have cl: "e = ClearPending \<longrightarrow> k \<notin> snd ` set (awaiting s)" and rest: "clears_spare k evs (dedup_step e s)"
    using Cons.prems(3) by simp_all
  have re: "e = Resume p \<longrightarrow> settledP s p = None"
    using Cons.prems(4) by auto
  note st = registered_step[OF Cons.prems(1,2) cl re]
  have side: "settledP (dedup_step e s) p = None \<and> (\<forall>out. Settle p out \<notin> set evs) \<or> Resume p \<notin> set evs"
    using Cons.prems(4) st by auto
  from Cons.IH[OF _ _ rest side] st Cons.prems(4)
  show ?case by auto
qed


lemma deduplicate_invokes:
  assumes "pendingRequests s k = None"
  shows "fst (deduplicate k f s) = next_pid s"
    and "invoked (snd (deduplicate k f s)) = invoked s @ [(k, next_pid s)]"
  using assms by (cases f; simp add: deduplicate_def Let_def)+

lemma deduplicate_registers:
  assumes "pendingRequests s k = None"
  shows "pendingRequests (snd (deduplicate k Returns s)) k = Some (next_pid s)"
    and "settledP (snd (deduplicate k Returns s)) = settledP s"
  using assms by (simp_all add: deduplicate_def Let_def)

lemma deduplicate_joins: "pendingRequests s k = Some p \<Longrightarrow> deduplicate k f s = (p, s)"
  by (simp add: deduplicate_def)

lemma new_objects_fresh:
  "pendingRequests new_RequestCache = Map.empty \<and> awaiting new_RequestCache = [] \<and>
   settledP new_RequestCache = Map.empty"
  "pendingRequests new_RequestThrottle = Map.empty \<and> awaiting new_RequestThrottle = [] \<and>
   settledP new_RequestThrottle = Map.empty"
  by (simp_all add: new_RequestCache_def new_RequestThrottle_def)

lemma pending_ok_key_ok: "pending_ok s \<Longrightarrow> key_ok k s"
  by (auto simp: pending_ok_def key_ok_def list_all_iff)

text \<open>
  Claim C1, as amended. Start from a new object \<open>s0\<close> (either constructor, lemma
  \<open>new_objects_fresh\<close>) and let \<open>evs0\<close> be any earlier events: calls for any key,
  settlements, continuations and \<^verbatim>\<open>clear()\<close>. In the state \<open>s\<close> they lead to, let no
  operation be registered for key \<open>k\<close>, and let a call for \<open>k\<close> invoke its operation,
  which returns the promise \<open>p\<close>. Let \<open>evs\<close> be the events that arrive while that
  operation is in flight, that is, before \<open>p\<close> settles; let \<open>p\<close> then settle with
  \<open>out\<close>, a success or a failure; and let \<open>evs2\<close> be the events that arrive before the
  continuation of the first call runs. The proviso is the last assumption: in all of
  this, \<^verbatim>\<open>clear()\<close> is never called while a continuation for \<open>k\<close> is suspended, that
  is, between the invocation of an operation for \<open>k\<close> and the continuation that removes
  its registration. A \<^verbatim>\<open>clear()\<close> while only other keys have operations in flight is
  allowed. Then:
  \<^item> the first call invoked the operation and returned \<open>p\<close>;
  \<^item> a call for \<open>k\<close> after \<open>evs\<close>, and after \<open>evs2\<close>, returns the same promise \<open>p\<close> and
    leaves the state as it is, and up to there the operation for \<open>k\<close> has been invoked
    exactly once since \<open>s\<close> (\<open>evs\<close> and \<open>evs2\<close> are arbitrary, so this holds at every
    moment of the two windows);
  \<^item> \<open>p\<close> is settled with \<open>out\<close> in every later state, whatever events \<open>evs'\<close> follow:
    every caller receives that outcome;
  \<^item> the continuation removes the registration of \<open>k\<close>, and the next call for \<open>k\<close>
    invokes its operation afresh, with a new promise.

  \<^verbatim>\<open>RequestThrottle.deduplicateRequest\<close> is the same function (lemma
  \<open>deduplicateRequest_eq\<close>).
\<close>

theorem deduplicate_once:
  assumes "pendingRequests s0 = Map.empty" and "awaiting s0 = []" and "settledP s0 = Map.empty"
    and "s = dedup_run evs0 s0" and "pendingRequests s k = None" and "p = next_pid s"
    and "s1 = dedup_run evs (snd (deduplicate k Returns s))"
    and "\<forall>out'. Settle p out' \<notin> set evs"
    and "s2 = dedup_run evs2 (settle p out s1)"
    and "Resume p \<notin> set evs2"
    and "s3 = resume p s2"
    and "clears_spare k (evs0 @ Call k Returns # evs @ Settle p out # evs2) s0"
  shows "fst (deduplicate k Returns s) = p \<and>
         invoked (snd (deduplicate k Returns s)) = invoked s @ [(k, p)] \<and>
         deduplicate k f s1 = (p, s1) \<and> settledP s1 p = None \<and>
         filter (\<lambda>(k', q). k' = k) (invoked s1) = filter (\<lambda>(k', q). k' = k) (invoked s) @ [(k, p)] \<and>
         deduplicate k f s2 = (p, s2) \<and>
         filter (\<lambda>(k', q). k' = k) (invoked s2) = filter (\<lambda>(k', q). k' = k) (invoked s) @ [(k, p)] \<and>
         settledP (dedup_run evs' s2) p = Some out \<and>
         pendingRequests s3 k = None \<and>
         fst (deduplicate k f s3) = next_pid s2 \<and> p < next_pid s2 \<and>
         invoked (snd (deduplicate k f s3)) = invoked s2 @ [(k, next_pid s2)]"
proof -
  let ?sa = "snd (deduplicate k Returns s)"
  let ?sb = "settle p out s1"
  have sp0: "clears_spare k evs0 s0" and spa: "clears_spare k evs ?sa"
    and spb: "clears_spare k evs2 ?sb"
    using assms(12) by (simp_all add: clears_spare_append assms(4,7))
  have ok: "key_ok k s"
    unfolding assms(4) by (rule key_ok_run[OF key_ok_start[OF assms(1-3)] sp0])
  have a: "fst (deduplicate k Returns s) = p" "invoked ?sa = invoked s @ [(k, p)]"
    using deduplicate_invokes[OF assms(5)] by (simp_all add: assms(6))
  have oka: "key_ok k ?sa" using ok by (rule key_ok_deduplicate)
  have rega: "pendingRequests ?sa k = Some p"
    using deduplicate_registers(1)[OF assms(5)] by (simp add: assms(6))
  have una: "settledP ?sa p = None"
    using key_ok_fresh[OF ok] by (simp add: deduplicate_registers(2)[OF assms(5)] assms(6) fresh_ok_def)
  have w1: "key_ok k s1" "pendingRequests s1 k = Some p"
    "filter (\<lambda>(k', q). k' = k) (invoked s1) = filter (\<lambda>(k', q). k' = k) (invoked ?sa)"
    "settledP s1 p = None"
    using registered_run[OF oka rega spa] una assms(8) by (simp_all add: assms(7))
  have lt1: "p < next_pid s1" using key_ok_awaits(2)[OF w1(1,2)] .
  have sb: "?sb = s1\<lparr>settledP := (settledP s1)(p \<mapsto> out)\<rparr>"
    using lt1 w1(4) by (simp add: settle_def)
  have okb: "key_ok k ?sb" using w1(1) by (rule key_ok_settle)
  have regb: "pendingRequests ?sb k = Some p" "settledP ?sb p = Some out" "invoked ?sb = invoked s1"
    using w1(2) by (simp_all add: sb)
  have w2: "key_ok k s2" "pendingRequests s2 k = Some p"
    "filter (\<lambda>(k', q). k' = k) (invoked s2) = filter (\<lambda>(k', q). k' = k) (invoked ?sb)"
    using registered_run[OF okb regb(1) spb] assms(10) by (simp_all add: assms(9))
  have set2: "settledP s2 p = Some out"
    unfolding assms(9) by (rule settled_stays_run[OF key_ok_fresh[OF okb] regb(2)])
  have stays: "settledP (dedup_run evs' s2) p = Some out"
    by (rule settled_stays_run[OF key_ok_fresh[OF w2(1)] set2])
  have aw2: "(p, k) \<in> set (awaiting s2)"
    using key_ok_awaits(1)[OF w2(1)] w2(2) by simp
  have lt2: "p < next_pid s2" using key_ok_awaits(2)[OF w2(1,2)] .
  have s3: "pendingRequests s3 k = None" "next_pid s3 = next_pid s2" "invoked s3 = invoked s2"
    using set2 aw2 by (simp_all add: assms(11) resume_def)
  have fresh: "fst (deduplicate k f s3) = next_pid s2"
    "invoked (snd (deduplicate k f s3)) = invoked s2 @ [(k, next_pid s2)]"
    using deduplicate_invokes[OF s3(1), of f] by (simp_all add: s3(2,3))
  have j1: "deduplicate k f s1 = (p, s1)" using w1(2) by (rule deduplicate_joins)
  have j2: "deduplicate k f s2 = (p, s2)" using w2(2) by (rule deduplicate_joins)
  have c1: "filter (\<lambda>(k', q). k' = k) (invoked s1) = filter (\<lambda>(k', q). k' = k) (invoked s) @ [(k, p)]"
    by (simp add: w1(3) a(2))
  have c2: "filter (\<lambda>(k', q). k' = k) (invoked s2) = filter (\<lambda>(k', q). k' = k) (invoked s) @ [(k, p)]"
    by (simp add: w2(3) regb(3) c1)
  show ?thesis
    using a j1 w1(4) c1 j2 c2 stays s3(1) fresh lt2 by simp
qed

theorem deduplicate_once_witness:
  "clears_spare ''a'' ([Call ''b'' Returns, ClearPending] @ Call ''a'' Returns # [Call ''a'' Returns, Call ''b'' Returns, Call ''a'' (SyncThrow ''x'')] @ Settle 1 (Fulfilled 7) # [Call ''a'' Returns]) (new_RequestCache :: nat RequestCache) \<and>
   pendingRequests (dedup_run [Call ''b'' Returns, ClearPending] (new_RequestCache :: nat RequestCache)) ''a'' = None \<and> next_pid (dedup_run [Call ''b'' Returns, ClearPending] (new_RequestCache :: nat RequestCache)) = 1 \<and>
   (\<forall>out'. Settle 1 out' \<notin> set ([Call ''a'' Returns, Call ''b'' Returns, Call ''a'' (SyncThrow ''x'')] :: nat dedup_event list)) \<and>
   Resume 1 \<notin> set ([Call ''a'' Returns] :: nat dedup_event list) \<and>
   fst (deduplicate ''a'' Returns (dedup_run [Call ''b'' Returns, ClearPending] (new_RequestCache :: nat RequestCache))) = 1 \<and>
   fst (deduplicate ''a'' Returns (dedup_run [Call ''a'' Returns, Call ''b'' Returns, Call ''a'' (SyncThrow ''x'')] (snd (deduplicate ''a'' Returns (dedup_run [Call ''b'' Returns, ClearPending] (new_RequestCache :: nat RequestCache)))))) = 1 \<and>
   settledP (dedup_run [Call ''a'' Returns, Call ''b'' Returns, Call ''a'' (SyncThrow ''x'')] (snd (deduplicate ''a'' Returns (dedup_run [Call ''b'' Returns, ClearPending] (new_RequestCache :: nat RequestCache))))) 1 = None \<and>
   fst (deduplicate ''a'' Returns (dedup_run [Call ''a'' Returns] (settle 1 (Fulfilled 7) (dedup_run [Call ''a'' Returns, Call ''b'' Returns, Call ''a'' (SyncThrow ''x'')] (snd (deduplicate ''a'' Returns (dedup_run [Call ''b'' Returns, ClearPending] (new_RequestCache :: nat RequestCache)))))))) = 1 \<and>
   filter (\<lambda>(k', q). k' = ''a'') (invoked (dedup_run [Call ''a'' Returns] (settle 1 (Fulfilled 7) (dedup_run [Call ''a'' Returns, Call ''b'' Returns, Call ''a'' (SyncThrow ''x'')] (snd (deduplicate ''a'' Returns (dedup_run [Call ''b'' Returns, ClearPending] (new_RequestCache :: nat RequestCache)))))))) = [(''a'', 1)] \<and>
   settledP (dedup_run [Resume 1, ClearPending, Call ''a'' Returns] (dedup_run [Call ''a'' Returns] (settle 1 (Fulfilled 7) (dedup_run [Call ''a'' Returns, Call ''b'' Returns, Call ''a'' (SyncThrow ''x'')] (snd (deduplicate ''a'' Returns (dedup_run [Call ''b'' Returns, ClearPending] (new_RequestCache :: nat RequestCache)))))))) 1 = Some (Fulfilled 7) \<and>
   pendingRequests (resume 1 (dedup_run [Call ''a'' Returns] (settle 1 (Fulfilled 7) (dedup_run [Call ''a'' Returns, Call ''b'' Returns, Call ''a'' (SyncThrow ''x'')] (snd (deduplicate ''a'' Returns (dedup_run [Call ''b'' Returns, ClearPending] (new_RequestCache :: nat RequestCache)))))))) ''a'' = None \<and>
   fst (deduplicate ''a'' Returns (resume 1 (dedup_run [Call ''a'' Returns] (settle 1 (Fulfilled 7) (dedup_run [Call ''a'' Returns, Call ''b'' Returns, Call ''a'' (SyncThrow ''x'')] (snd (deduplicate ''a'' Returns (dedup_run [Call ''b'' Returns, ClearPending] (new_RequestCache :: nat RequestCache))))))))) = 3"
proof -
  have h: "pendingRequests (new_RequestCache :: nat RequestCache) = Map.empty" "awaiting (new_RequestCache :: nat RequestCache) = []" "settledP (new_RequestCache :: nat RequestCache) = Map.empty"
    by (simp_all add: new_RequestCache_def)
  have pr: "pendingRequests (dedup_run [Call ''b'' Returns, ClearPending] (new_RequestCache :: nat RequestCache)) ''a'' = None" and np: "next_pid (dedup_run [Call ''b'' Returns, ClearPending] (new_RequestCache :: nat RequestCache)) = 1"
    and iv: "invoked (dedup_run [Call ''b'' Returns, ClearPending] (new_RequestCache :: nat RequestCache)) = [(''b'', 0)]"
    by (simp_all add: dedup_run_def deduplicate_def clear_pending_def new_RequestCache_def Let_def)
  have cs: "clears_spare ''a'' ([Call ''b'' Returns, ClearPending] @ Call ''a'' Returns # [Call ''a'' Returns, Call ''b'' Returns, Call ''a'' (SyncThrow ''x'')] @ Settle 1 (Fulfilled 7) # [Call ''a'' Returns]) (new_RequestCache :: nat RequestCache)"
    by (simp add: deduplicate_def settle_def clear_pending_def new_RequestCache_def Let_def)
  have w1: "\<forall>out'. Settle 1 out' \<notin> set ([Call ''a'' Returns, Call ''b'' Returns, Call ''a'' (SyncThrow ''x'')] :: nat dedup_event list)"
    and w2: "Resume 1 \<notin> set ([Call ''a'' Returns] :: nat dedup_event list)"
    by simp_all
  have np2: "next_pid (dedup_run [Call ''a'' Returns] (settle 1 (Fulfilled 7) (dedup_run [Call ''a'' Returns, Call ''b'' Returns, Call ''a'' (SyncThrow ''x'')] (snd (deduplicate ''a'' Returns (dedup_run [Call ''b'' Returns, ClearPending] (new_RequestCache :: nat RequestCache))))))) = 3"
    by (simp add: dedup_run_def deduplicate_def settle_def clear_pending_def new_RequestCache_def Let_def)
  from deduplicate_once [OF h refl pr np[symmetric] refl w1 refl w2 refl cs,
      where f = Returns and evs' = "[Resume 1, ClearPending, Call ''a'' Returns]"]
    cs pr np w1 w2
  show ?thesis by (simp add: iv np2[unfolded One_nat_def])
qed

text \<open>
  Claim C1 as stated, in two runs on a new cache.
  \<^item> A call for key \<open>a\<close> invokes its operation (promise 0); the pending map is cleared
    while that operation is in flight; the next call for \<open>a\<close> arrives with promise 0
    still unsettled, yet it invokes the operation a second time and the two callers hold
    different promises.
  \<^item> A call for \<open>a\<close> invokes its operation (promise 0), which settles; the pending map is
    cleared before the continuation of that call has run; the next call for \<open>a\<close> invokes
    a second operation (promise 1) and registers it; the continuation of the first call
    then deletes that registration, since it deletes by key. The call after that arrives
    with promise 1 unsettled and invokes the operation a third time.
\<close>

theorem deduplicate_after_clear_counterexample:
  "settledP (dedup_run [Call ''a'' Returns, ClearPending]
              (new_RequestCache :: nat RequestCache)) 0 = None \<and>
   fst (deduplicate ''a'' Returns (new_RequestCache :: nat RequestCache)) = 0 \<and>
   fst (deduplicate ''a'' Returns
         (dedup_run [Call ''a'' Returns, ClearPending] (new_RequestCache :: nat RequestCache))) = 1 \<and>
   invoked (snd (deduplicate ''a'' Returns
         (dedup_run [Call ''a'' Returns, ClearPending] (new_RequestCache :: nat RequestCache))))
     = [(''a'', 0), (''a'', 1)] \<and>
   settledP (dedup_run [Call ''a'' Returns, Settle 0 (Fulfilled 7)]
              (new_RequestCache :: nat RequestCache)) 0 = Some (Fulfilled 7) \<and>
   settledP (dedup_run [Call ''a'' Returns, Settle 0 (Fulfilled 7), ClearPending,
                        Call ''a'' Returns, Resume 0]
              (new_RequestCache :: nat RequestCache)) 1 = None \<and>
   fst (deduplicate ''a'' Returns
         (dedup_run [Call ''a'' Returns, Settle 0 (Fulfilled 7), ClearPending,
                     Call ''a'' Returns, Resume 0]
            (new_RequestCache :: nat RequestCache))) = 2 \<and>
   invoked (snd (deduplicate ''a'' Returns
         (dedup_run [Call ''a'' Returns, Settle 0 (Fulfilled 7), ClearPending,
                     Call ''a'' Returns, Resume 0]
            (new_RequestCache :: nat RequestCache))))
     = [(''a'', 0), (''a'', 1), (''a'', 2)]"
  by (simp add: dedup_run_def deduplicate_def settle_def resume_def clear_pending_def
        new_RequestCache_def Let_def)

lemma clear_cache_pending:
  "pendingRequests (clear_cache c) = pendingRequests (clear_pending c)"
  "settledP (clear_cache c) = settledP (clear_pending c)"
  "next_pid (clear_cache c) = next_pid (clear_pending c)"
  "invoked (clear_cache c) = invoked (clear_pending c)"
  "awaiting (clear_cache c) = awaiting (clear_pending c)"
  by (simp_all add: clear_cache_def clear_pending_def)

lemma deduplicateRequest_eq: "deduplicateRequest k fn s = deduplicate k fn s"
  by (simp add: deduplicateRequest_def deduplicate_def)


section \<open>Properties of the batch runner\<close>

lemma executeBatch_loop_diverges:
  assumes "executeBatch_loop apiCalls bs i acc = Some r"
  shows "\<not> (bs \<le> 0 \<and> i < of_nat (length apiCalls))"
proof (rule executeBatch_loop.raw_induct[where P = "\<lambda>apiCalls bs i acc r. \<not> (bs \<le> 0 \<and> i < of_nat (length apiCalls))", OF _ assms])
  fix f and apiCalls :: "'a outcome list" and batchSize i :: rat and allResults r :: "'a slot list"
  assume IH: "\<And>a b c d y. f a b c d = Some y \<Longrightarrow> \<not> (b \<le> 0 \<and> c < of_nat (length a))"
    and eq: "(if i < of_nat (length apiCalls)
        then let batch = js_slice apiCalls i (i + batchSize);
                 batchResults = map batchPromise batch
             in f apiCalls batchSize (i + batchSize)
                 (forEach_assign i batchResults 0 allResults)
        else Some allResults) = Some r"
  show "\<not> (batchSize \<le> 0 \<and> i < of_nat (length apiCalls))"
  proof
    assume a: "batchSize \<le> 0 \<and> i < of_nat (length apiCalls)"
    with eq have "f apiCalls batchSize (i + batchSize)
                 (forEach_assign i (map batchPromise (js_slice apiCalls i (i + batchSize))) 0 allResults) = Some r"
      by (simp add: Let_def)
    from IH[OF this] a show False by simp
  qed
qed

lemma ToIntegerOrInfinity_of_nat: "ToIntegerOrInfinity (of_nat n) = int n"
  by (simp add: ToIntegerOrInfinity_def)

lemma ToIntegerOrInfinity_window:
  "0 < b \<Longrightarrow> ToIntegerOrInfinity (of_nat n + of_int b) = int n + b"
proof -
  assume "0 < b"
  have "(of_nat n + of_int b :: rat) = of_int (int n + b)" by simp
  moreover have "\<not> (of_int (int n + b) :: rat) < 0" using \<open>0 < b\<close> by (simp add: not_less)
  ultimately show ?thesis
    unfolding ToIntegerOrInfinity_def by (simp only: if_False floor_of_int)
qed

lemma js_slice_window:
  assumes "0 < b"
  shows "js_slice xs (of_nat n) (of_nat n + of_int b) = take (nat b) (drop n xs)"
proof (cases "n \<le> length xs")
  case True
  show ?thesis
  proof (cases "int n + b \<le> int (length xs)")
    case True
    with assms show ?thesis
      by (simp add: js_slice_def Let_def min_def ToIntegerOrInfinity_of_nat ToIntegerOrInfinity_window)
  next
    case False
    with assms \<open>n \<le> length xs\<close> have "nat (int (length xs) - int n) = length xs - n" "length xs - n \<le> nat b"
      by linarith+
    with assms False \<open>n \<le> length xs\<close> show ?thesis
      by (simp add: js_slice_def Let_def min_def ToIntegerOrInfinity_of_nat ToIntegerOrInfinity_window)
  qed
next
  case False
  with assms show ?thesis
    by (simp add: js_slice_def Let_def min_def ToIntegerOrInfinity_of_nat ToIntegerOrInfinity_window)
qed

lemma js_assign_end: "js_assign xs (of_nat (length xs)) v = xs @ [v]"
  by (simp add: js_assign_def)

lemma forEach_assign_dense:
  "length acc = n + index \<Longrightarrow>
   forEach_assign (of_nat n) (map batchPromise batch) index acc = acc @ map slot_of batch"
proof (induction batch arbitrary: index acc)
  case Nil
  then show ?case by simp
next
  case (Cons a batch)
  have idx: "(of_nat n + of_nat index :: rat) = of_nat (length acc)"
    using Cons.prems by simp
  have "forEach_assign (of_nat n) (map batchPromise (a # batch)) index acc =
        forEach_assign (of_nat n) (map batchPromise batch) (index + 1) (acc @ [slot_of a])"
    by (cases a) (simp_all add: batchPromise_def slot_of_def idx js_assign_end del: of_nat_add)
  also have "\<dots> = (acc @ [slot_of a]) @ map slot_of batch"
    using Cons.prems by (intro Cons.IH) simp_all
  finally show ?case by simp
qed

lemma executeBatch_loop_returns:
  assumes "0 < b"
  shows "allResults = map slot_of (take n apiCalls) \<Longrightarrow>
     executeBatch_loop apiCalls (of_int b) (of_nat n) allResults = Some (map slot_of apiCalls)"
proof (induction "length apiCalls - n" arbitrary: n allResults rule: less_induct)
  case less
  show ?case
  proof (cases "n < length apiCalls")
    case False
    with less.prems show ?thesis
      by (subst executeBatch_loop.simps) simp
  next
    case True
    let ?batch = "js_slice apiCalls (of_nat n) (of_nat n + of_int b)"
    let ?next = "forEach_assign (of_nat n) (map batchPromise ?batch) 0 allResults"
    have len: "length allResults = n + 0"
      using less.prems True by simp
    have batch: "?batch = take (nat b) (drop n apiCalls)"
      using assms by (rule js_slice_window)
    have "?next = allResults @ map slot_of ?batch"
      using len by (rule forEach_assign_dense)
    also have "\<dots> = map slot_of (take n apiCalls @ take (nat b) (drop n apiCalls))"
      using less.prems batch by simp
    also have "take n apiCalls @ take (nat b) (drop n apiCalls) = take (n + nat b) apiCalls"
      by (simp add: take_add)
    finally have next_eq: "?next = map slot_of (take (n + nat b) apiCalls)" .
    have step: "(of_nat n + of_int b :: rat) = of_nat (n + nat b)"
      using assms by simp
    have "executeBatch_loop apiCalls (of_int b) (of_nat (n + nat b)) ?next = Some (map slot_of apiCalls)"
      using assms True next_eq by (intro less.hyps) linarith+
    with True show ?thesis
      by (subst executeBatch_loop.simps) (simp add: Let_def step del: of_nat_add)
  qed
qed

text \<open>
  Claim C8, as amended. When the hook is enabled and the list of operations is not
  empty, then for every whole-number batch size of at least one and whatever the
  \<^verbatim>\<open>results\<close> state held before, \<^verbatim>\<open>executeBatch\<close> terminates and hands \<^verbatim>\<open>setResults\<close>
  one slot per operation, in input order: the value of an operation that succeeded,
  \<^verbatim>\<open>null\<close> for one that failed. A failure therefore neither aborts nor skips a sibling.
  (\<open>map slot_of apiCalls\<close> has the length of \<open>apiCalls\<close> and its \<open>n\<close>-th element is
  \<open>slot_of\<close> of the \<open>n\<close>-th operation.)
\<close>

theorem executeBatch_aligned:
  assumes "0 < b" and "apiCalls \<noteq> []"
  shows "executeBatch True apiCalls (of_int b) results = Some (map slot_of apiCalls)"
proof -
  have "executeBatch_loop apiCalls (of_int b) (of_nat 0) [] = Some (map slot_of apiCalls)"
    using assms(1) by (rule executeBatch_loop_returns) simp
  with assms(2) show ?thesis
    by (simp add: executeBatch_def)
qed

theorem executeBatch_aligned_witness:
  "(0::int) < 2 \<and> [Fulfilled (1::nat), Rejected ''down'', Fulfilled 3] \<noteq> [] \<and>
   executeBatch True [Fulfilled (1::nat), Rejected ''down'', Fulfilled 3] 2 [Val 9] =
     Some [Val 1, Null, Val 3]"
  using executeBatch_aligned [of 2 "[Fulfilled (1::nat), Rejected ''down'', Fulfilled 3]" "[Val 9]"]
  by (simp add: slot_of_def)

text \<open>
  Claim C8 as stated quantifies over every input list and every batch size. Four calls
  where no output list of the length of the input is returned:
  \<^item> with a batch size of zero the loop index never advances, and the call never reaches
    \<^verbatim>\<open>setResults\<close>;
  \<^item> with a batch size of \<open>3/2\<close> the second batch starts at index \<open>3/2\<close>, so the results
    of the second and third operation are assigned to the properties \<^verbatim>\<open>1.5\<close> and
    \<^verbatim>\<open>2.5\<close>, which are not array elements: three operations, an output of length one;
  \<^item> with an empty list the call returns before the loop, and the \<^verbatim>\<open>results\<close> state keeps
    the two slots of an earlier run;
  \<^item> with the hook disabled the call returns before the loop as well, and one operation
    has no slot.
\<close>

theorem executeBatch_unaligned_counterexample:
  "executeBatch True [Fulfilled (1::nat)] 0 [] = None \<and>
   executeBatch True [Fulfilled (1::nat), Fulfilled 2, Fulfilled 3] (3 / 2) [] = Some [Val 1] \<and>
   executeBatch True [] 2 [Val (1::nat), Null] = Some [Val 1, Null] \<and>
   executeBatch False [Fulfilled (1::nat)] 2 [] = Some []"
proof -
  have zero: "executeBatch True [Fulfilled (1::nat)] 0 [] = None"
    using executeBatch_loop_diverges [of "[Fulfilled (1::nat)]" 0 0 "[]"]
    by (cases "executeBatch_loop [Fulfilled (1::nat)] 0 0 []") (auto simp: executeBatch_def)
  have fl: "\<lfloor>3 / 2 :: rat\<rfloor> = 1" "\<lfloor>5 / 2 :: rat\<rfloor> = 2"
    by (simp_all add: floor_eq_iff)
  have frac: "executeBatch True [Fulfilled (1::nat), Fulfilled 2, Fulfilled 3] (3 / 2) [] = Some [Val 1]"
    by (simp add: executeBatch_def executeBatch_loop.simps js_slice_def ToIntegerOrInfinity_def
          js_assign_def batchPromise_def Let_def fl)
  have guard: "executeBatch True [] 2 [Val (1::nat), Null] = Some [Val 1, Null]"
    "executeBatch False [Fulfilled (1::nat)] 2 [] = Some []"
    by (simp_all add: executeBatch_def)
  show ?thesis
    using zero frac guard by simp
qed
section \<open>Properties of the request queue\<close>

lemma executeRequest_fields [simp]:
  "requestQueue (executeRequest t s) = requestQueue s"
  "isProcessing (executeRequest t s) = isProcessing s"
  "maxConcurrent (executeRequest t s) = maxConcurrent s"
  "requestDelay (executeRequest t s) = requestDelay s"
  "now (executeRequest t s) = now s"
  "next_tid (executeRequest t s) = next_tid s"
  "drains (executeRequest t s) = drains s"
  "timers (executeRequest t s) = timers s"
  "batchEnds (executeRequest t s) = batchEnds s"
  "dispatched (executeRequest t s) = dispatched s @ [(tid t, now s)]"
  "settled (executeRequest t s) = sync_rejects [t] (settled s)"
  by (simp_all add: executeRequest_def Let_def sync_rejects_def split: requestFn.splits)

lemma shift_loop_fields:
  "fst (shift_loop a s) = a @ map tid (take (maxConcurrent s - length a) (requestQueue s)) \<and>
   requestQueue (snd (shift_loop a s)) = drop (maxConcurrent s - length a) (requestQueue s) \<and>
   dispatched (snd (shift_loop a s)) =
     dispatched s @
       map (\<lambda>t. (tid t, now s)) (take (maxConcurrent s - length a) (requestQueue s)) \<and>
   settled (snd (shift_loop a s)) =
     sync_rejects (take (maxConcurrent s - length a) (requestQueue s)) (settled s) \<and>
   isProcessing (snd (shift_loop a s)) = isProcessing s \<and>
   maxConcurrent (snd (shift_loop a s)) = maxConcurrent s \<and>
   requestDelay (snd (shift_loop a s)) = requestDelay s \<and>
   now (snd (shift_loop a s)) = now s \<and>
   next_tid (snd (shift_loop a s)) = next_tid s \<and>
   drains (snd (shift_loop a s)) = drains s \<and>
   timers (snd (shift_loop a s)) = timers s \<and>
   batchEnds (snd (shift_loop a s)) = batchEnds s"
  (is "?P a s")
proof (induction a s rule: shift_loop.induct)
  case (1 a s)
  show ?case
  proof (cases "length (requestQueue s) > 0 \<and> length a < maxConcurrent s")
    case False
    then show ?thesis
      by (subst (1 2 3 4 5 6 7 8 9 10 11 12) shift_loop.simps) (auto simp: sync_rejects_def)
  next
    case True
    then obtain t q where q: "requestQueue s = t # q"
      by (cases "requestQueue s") auto
    from True obtain m where m: "maxConcurrent s - length a = Suc m"
      by (cases "maxConcurrent s - length a") auto
    then have m': "maxConcurrent s - Suc (length a) = m"
      by simp
    let ?s' = "executeRequest t (s\<lparr>requestQueue := tl (requestQueue s)\<rparr>)"
    have step: "shift_loop a s = shift_loop (a @ [tid t]) ?s'"
      using True q by (subst shift_loop.simps) (simp add: Let_def)
    have IH: "?P (a @ [tid t]) ?s'"
      using "1.IH"[OF True refl refl] q by simp
    show ?thesis
      unfolding step using IH q m m' by (simp add: sync_rejects_def)
  qed
qed

lemma sync_rejects_other: "t \<notin> tid ` set ts \<Longrightarrow> sync_rejects ts m t = m t"
  unfolding sync_rejects_def
  by (induction ts arbitrary: m) (auto split: requestFn.splits)

lemma sync_rejects_mono: "m t \<noteq> None \<Longrightarrow> sync_rejects ts m t \<noteq> None"
  unfolding sync_rejects_def
  by (induction ts arbitrary: m) (auto split: requestFn.splits)

lemma processQueue_idle: "isProcessing s \<or> requestQueue s = [] \<Longrightarrow> processQueue s = s"
  by (auto simp: processQueue_def)

lemma processQueue_fields:
  assumes "\<not> isProcessing s" "requestQueue s \<noteq> []"
  shows "requestQueue (processQueue s) = drop (maxConcurrent s) (requestQueue s)"
    and "dispatched (processQueue s) =
           dispatched s @ map (\<lambda>t. (tid t, now s)) (take (maxConcurrent s) (requestQueue s))"
    and "settled (processQueue s) = sync_rejects (take (maxConcurrent s) (requestQueue s)) (settled s)"
    and "isProcessing (processQueue s) = True"
    and "drains (processQueue s) = drains s @ [map tid (take (maxConcurrent s) (requestQueue s))]"
    and "maxConcurrent (processQueue s) = maxConcurrent s"
    and "requestDelay (processQueue s) = requestDelay s"
    and "now (processQueue s) = now s"
    and "next_tid (processQueue s) = next_tid s"
    and "timers (processQueue s) = timers s"
    and "batchEnds (processQueue s) = batchEnds s"
  using assms shift_loop_fields[of "[]" "s\<lparr>isProcessing := True\<rparr>"]
  by (simp_all add: processQueue_def split_beta)

lemma unsettled_set: "set (unsettled s) = {t \<in> fst ` set (dispatched s). settled s t = None}"
  by (auto simp: unsettled_def)

lemma queue_ok_processQueue:
  assumes ok: "queue_ok s"
  shows "queue_ok (processQueue s)"
proof (cases "isProcessing s \<or> requestQueue s = []")
  case True
  with ok show ?thesis by (simp add: processQueue_idle)
next
  case False
  then have np: "\<not> isProcessing s" and ne: "requestQueue s \<noteq> []" by simp_all
  note f = processQueue_fields[OF np ne]
  let ?q = "requestQueue s" and ?m = "maxConcurrent s"
  have q1: "distinct (map tid ?q)" and q9: "sorted_wrt goes_before ?q"
    using ok by (simp_all add: queue_ok_def)
  have q2: "\<And>t. t \<in> set ?q \<Longrightarrow> tid t < next_tid s \<and> tid t \<notin> fst ` set (dispatched s)"
    and q4: "\<And>t. t \<in> fst ` set (dispatched s) \<Longrightarrow> t < next_tid s"
    and q5: "\<And>t. settled s t \<noteq> None \<Longrightarrow> t \<in> fst ` set (dispatched s)"
    using ok unfolding queue_ok_def by blast+
  have split: "map tid ?q = map tid (take ?m ?q) @ map tid (drop ?m ?q)"
    by (simp flip: map_append)
  have dtd: "distinct (map tid (take ?m ?q))" "distinct (map tid (drop ?m ?q))"
    "tid ` set (take ?m ?q) \<inter> tid ` set (drop ?m ?q) = {}"
    using q1 unfolding split distinct_append by simp_all
  have fstd: "fst ` set (dispatched (processQueue s)) =
                fst ` set (dispatched s) \<union> tid ` set (take ?m ?q)"
    by (auto simp: f(2) image_Un image_image)
  have a1: "distinct (map tid (requestQueue (processQueue s)))"
    using dtd by (simp add: f(1))
  have a2: "\<forall>t \<in> set (requestQueue (processQueue s)).
              tid t < next_tid (processQueue s) \<and>
              tid t \<notin> fst ` set (dispatched (processQueue s))"
  proof
    fix t assume t: "t \<in> set (requestQueue (processQueue s))"
    then have tq: "t \<in> set ?q" by (auto simp: f(1) dest: in_set_dropD)
    have "tid t \<notin> tid ` set (take ?m ?q)"
      using t dtd(3) by (auto simp: f(1))
    with q2[OF tq]
    show "tid t < next_tid (processQueue s) \<and>
          tid t \<notin> fst ` set (dispatched (processQueue s))"
      by (simp add: f(9) fstd)
  qed
  have a4: "\<forall>t \<in> fst ` set (dispatched (processQueue s)). t < next_tid (processQueue s)"
    using q4 q2 by (auto simp: fstd f(9) dest: in_set_takeD)
  have a5: "\<forall>t. settled (processQueue s) t \<noteq> None \<longrightarrow>
                t \<in> fst ` set (dispatched (processQueue s))"
  proof (intro allI impI)
    fix t assume st: "settled (processQueue s) t \<noteq> None"
    show "t \<in> fst ` set (dispatched (processQueue s))"
    proof (cases "t \<in> tid ` set (take ?m ?q)")
      case True then show ?thesis by (simp add: fstd)
    next
      case False
      with st have "settled s t \<noteq> None" by (simp add: f(3) sync_rejects_other)
      then show ?thesis using q5 by (simp add: fstd)
    qed
  qed
  have a9: "sorted_wrt goes_before (requestQueue (processQueue s))"
    using q9 by (simp add: f(1) sorted_wrt_drop)
  show ?thesis
    unfolding queue_ok_def using a1 a2 a4 a5 a9 by blast
qed

lemma drain_ok_processQueue:
  assumes qk: "queue_ok s" and ok: "drain_ok s"
  shows "drain_ok (processQueue s)"
proof (cases "isProcessing s \<or> requestQueue s = []")
  case True
  with ok show ?thesis by (simp add: processQueue_idle)
next
  case False
  then have np: "\<not> isProcessing s" and ne: "requestQueue s \<noteq> []" by simp_all
  note f = processQueue_fields[OF np ne]
  let ?q = "requestQueue s" and ?m = "maxConcurrent s"
  have q1: "distinct (map tid ?q)"
    using qk by (simp add: queue_ok_def)
  have q2: "\<And>t. t \<in> set ?q \<Longrightarrow> tid t < next_tid s \<and> tid t \<notin> fst ` set (dispatched s)"
    using qk unfolding queue_ok_def by blast
  have q3: "distinct (map fst (dispatched s))" and dr: "drains s = []"
    using ok np by (simp_all add: drain_ok_def)
  have q8: "\<And>t. t \<in> fst ` set (dispatched s) \<Longrightarrow> settled s t \<noteq> None"
    using ok dr unfolding drain_ok_def unsettled_set by auto
  have fstd: "fst ` set (dispatched (processQueue s)) =
                fst ` set (dispatched s) \<union> tid ` set (take ?m ?q)"
    by (auto simp: f(2) image_Un image_image)
  have a3: "distinct (map fst (dispatched (processQueue s)))"
  proof -
    have "map fst (dispatched (processQueue s)) = map fst (dispatched s) @ map tid (take ?m ?q)"
      by (simp add: f(2) comp_def)
    moreover have "set (map fst (dispatched s)) \<inter> set (map tid (take ?m ?q)) = {}"
    proof -
      have "\<And>t. t \<in> set (take ?m ?q) \<Longrightarrow> tid t \<notin> fst ` set (dispatched s)"
        using q2 by (blast dest: in_set_takeD)
      then show ?thesis by force
    qed
    moreover have "distinct (map tid (take ?m ?q))"
    proof -
      have "map tid ?q = map tid (take ?m ?q) @ map tid (drop ?m ?q)"
        by (simp flip: map_append)
      with q1 show ?thesis by (metis distinct_append)
    qed
    ultimately show ?thesis using q3 by simp
  qed
  have a6: "(if isProcessing (processQueue s) then length (drains (processQueue s)) = 1
             else drains (processQueue s) = [])"
    by (simp add: f(4,5) dr)
  have a7: "\<forall>d \<in> set (drains (processQueue s)). length d \<le> maxConcurrent (processQueue s)"
    by (simp add: f(5,6) dr)
  have a8: "\<forall>t \<in> set (unsettled (processQueue s)).
              t \<in> \<Union> (set ` set (drains (processQueue s)))"
  proof
    fix t assume "t \<in> set (unsettled (processQueue s))"
    then have d: "t \<in> fst ` set (dispatched s) \<union> tid ` set (take ?m ?q)"
      and u: "settled (processQueue s) t = None"
      by (simp_all add: unsettled_set fstd)
    have "t \<notin> fst ` set (dispatched s)"
    proof
      assume "t \<in> fst ` set (dispatched s)"
      then have "settled s t \<noteq> None" by (rule q8)
      then have "settled (processQueue s) t \<noteq> None"
        unfolding f(3) by (rule sync_rejects_mono)
      with u show False by simp
    qed
    with d show "t \<in> \<Union> (set ` set (drains (processQueue s)))"
      by (simp add: f(5) dr)
  qed
  show ?thesis
    unfolding drain_ok_def using a3 a6 a7 a8 by blast
qed

lemma insort_last_sorted:
  "sorted (map f q) \<Longrightarrow>
   foldr (insort_key f) q [x] = filter (\<lambda>y. f y \<le> f x) q @ [x] @ filter (\<lambda>y. f x < f y) q"
proof (induction q)
  case Nil
  then show ?case by simp
next
  case (Cons a q)
  then have le: "\<And>y. y \<in> set q \<Longrightarrow> f a \<le> f y" and sq: "sorted (map f q)"
    by auto
  note IH = Cons.IH[OF sq]
  show ?case
  proof (cases "f a \<le> f x")
    case True
    have "insort_key f a (filter (\<lambda>y. f y \<le> f x) q @ [x] @ filter (\<lambda>y. f x < f y) q) =
          a # (filter (\<lambda>y. f y \<le> f x) q @ [x] @ filter (\<lambda>y. f x < f y) q)"
      using True le by (intro insort_is_Cons) auto
    with True show ?thesis by (simp add: IH)
  next
    case False
    then have lt: "\<And>y. y \<in> set q \<Longrightarrow> f x < f y"
      using le by force
    then have "filter (\<lambda>y. f y \<le> f x) q = []" "filter (\<lambda>y. f x < f y) q = q"
      by (auto simp: filter_empty_conv filter_id_conv dest: leD)
    moreover have "insort_key f a q = a # q"
      using le by (intro insort_is_Cons) auto
    ultimately show ?thesis using False by (simp add: IH)
  qed
qed

lemma sort_push_sorted:
  assumes "sorted_wrt goes_before q"
  shows "sort_key (\<lambda>a. - priority a) (q @ [t]) =
           filter (\<lambda>y. priority t \<le> priority y) q @ [t] @ filter (\<lambda>y. priority y < priority t) q"
proof -
  have "sorted_wrt (\<lambda>a b. - priority a \<le> - priority b) q"
    using assms by (rule sorted_wrt_mono_rel[rotated]) (auto simp: goes_before_def)
  then have "sorted (map (\<lambda>a. - priority a) q)"
    by (simp add: sorted_map)
  from insort_last_sorted[OF this, of t] show ?thesis
    by (simp add: sort_key_def)
qed

lemma queue_ok_enqueue:
  assumes ok: "queue_ok s"
  shows "queue_ok (s\<lparr>next_tid := Suc (next_tid s),
            requestQueue := sort_key (\<lambda>a. - priority a)
              (requestQueue s @ [\<lparr>tid = next_tid s, requestFn = fn, priority = prio, timestamp = now s\<rparr>])\<rparr>)"
    (is "queue_ok ?s'")
proof -
  let ?q = "requestQueue s"
  let ?t = "\<lparr>tid = next_tid s, requestFn = fn, priority = prio, timestamp = now s\<rparr>"
  let ?hi = "filter (\<lambda>y. priority ?t \<le> priority y) ?q"
  let ?lo = "filter (\<lambda>y. priority y < priority ?t) ?q"
  have q1: "distinct (map tid ?q)" and q9: "sorted_wrt goes_before ?q"
    using ok by (simp_all add: queue_ok_def)
  have q2: "\<And>t. t \<in> set ?q \<Longrightarrow> tid t < next_tid s \<and> tid t \<notin> fst ` set (dispatched s)"
    and q4: "\<And>t. t \<in> fst ` set (dispatched s) \<Longrightarrow> t < next_tid s"
    using ok unfolding queue_ok_def by blast+
  have rest: "\<forall>t. settled s t \<noteq> None \<longrightarrow> t \<in> fst ` set (dispatched s)"
    using ok unfolding queue_ok_def by blast
  have qeq: "requestQueue ?s' = ?hi @ [?t] @ ?lo"
    using sort_push_sorted[OF q9, of ?t] by simp
  have a1: "distinct (map tid (requestQueue ?s'))"
  proof -
    have inj: "inj_on tid (set ?q)" and dq: "distinct ?q"
      using q1 by (simp_all add: distinct_map)
    have fresh: "tid y \<noteq> next_tid s" if "y \<in> set ?q" for y
      using q2[OF that] by simp
    then have "next_tid s \<notin> tid ` set ?q" by (force simp: image_iff)
    then have "inj_on tid (insert ?t (set ?q))"
      using inj by (auto simp: inj_on_insert)
    then have i: "inj_on tid (set (?hi @ [?t] @ ?lo))"
      by (rule inj_on_subset) auto
    have "?t \<notin> set ?q"
      using fresh[of ?t] by auto
    then have d: "distinct (?hi @ [?t] @ ?lo)"
      using dq by auto
    show ?thesis
      unfolding qeq distinct_map using i d by blast
  qed
  have a2: "\<forall>t \<in> set (requestQueue ?s'). tid t < next_tid ?s' \<and> tid t \<notin> fst ` set (dispatched ?s')"
  proof
    fix t assume "t \<in> set (requestQueue ?s')"
    then consider "t \<in> set ?q" | "t = ?t" unfolding qeq by auto
    then show "tid t < next_tid ?s' \<and> tid t \<notin> fst ` set (dispatched ?s')"
    proof cases
      case 1 with q2[OF 1] show ?thesis by simp
    next
      case 2
      have "next_tid s \<notin> fst ` set (dispatched s)" using q4 by blast
      with 2 show ?thesis by simp
    qed
  qed
  have a4: "\<forall>t \<in> fst ` set (dispatched ?s'). t < next_tid ?s'"
    using q4 by (auto simp: less_Suc_eq)
  have a9: "sorted_wrt goes_before (requestQueue ?s')"
  proof -
    have "sorted_wrt goes_before ?hi" "sorted_wrt goes_before ?lo"
      using q9 by (simp_all add: sorted_wrt_filter)
    moreover have "\<forall>a \<in> set ?hi. goes_before a ?t"
      using q2 by (auto simp: goes_before_def)
    moreover have "\<forall>b \<in> set ?lo. goes_before ?t b"
      by (auto simp: goes_before_def)
    moreover have "\<forall>a \<in> set ?hi. \<forall>b \<in> set ?lo. goes_before a b"
      by (auto simp: goes_before_def)
    ultimately show ?thesis
      unfolding qeq by (simp add: sorted_wrt_append)
  qed
  show ?thesis
    unfolding queue_ok_def using a1 a2 a4 a9 rest by simp
qed

lemma drain_ok_enqueue:
  "drain_ok s \<Longrightarrow> drain_ok (s\<lparr>next_tid := n, requestQueue := q\<rparr>)"
  by (simp add: drain_ok_def unsettled_def)

lemma queueRequest_eq:
  "queueRequest fn prio s =
     (next_tid s, processQueue (s\<lparr>next_tid := Suc (next_tid s),
            requestQueue := sort_key (\<lambda>a. - priority a)
              (requestQueue s @ [\<lparr>tid = next_tid s, requestFn = fn, priority = prio, timestamp = now s\<rparr>])\<rparr>))"
  by (simp add: queueRequest_def Let_def)

lemma queue_ok_step:
  assumes ok: "queue_ok s"
  shows "queue_ok (throttle_step e s)"
proof (cases e)
  case (Submit fn prio)
  show ?thesis
    unfolding Submit using ok
    by (simp add: queueRequest_eq queue_ok_processQueue queue_ok_enqueue)
next
  case (TaskSettles t out)
  show ?thesis
    unfolding TaskSettles using ok by (auto simp: queue_ok_def taskSettles_def)
next
  case (AllSettled i)
  show ?thesis
    unfolding AllSettled using ok by (auto simp: queue_ok_def allSettled_def Let_def)
next
  case (TimerFires i)
  have "queue_ok (s\<lparr>timers := take i (timers s) @ drop (Suc i) (timers s)\<rparr>)"
    using ok by (simp add: queue_ok_def)
  then show ?thesis
    unfolding TimerFires using ok by (simp add: timerFires_def queue_ok_processQueue)
next
  case Sweep
  show ?thesis
    unfolding Sweep using ok
    by (simp add: queue_ok_def sweep_def distinct_map_filter sorted_wrt_filter)
next
  case Clear
  show ?thesis
    unfolding Clear using ok by (simp add: queue_ok_def clear_throttle_def)
next
  case (Tick d)
  show ?thesis
    unfolding Tick using ok by (simp add: queue_ok_def)
qed

lemma queue_ok_new: "queue_ok new_RequestThrottle"
  by (simp add: queue_ok_def new_RequestThrottle_def)

lemma queue_ok_new_max: "queue_ok (new_RequestThrottle\<lparr>maxConcurrent := m\<rparr>)"
  by (simp add: queue_ok_def new_RequestThrottle_def)

lemma queue_ok_run: "queue_ok s \<Longrightarrow> queue_ok (throttle_run evs s)"
  unfolding throttle_run_def
  by (induction evs arbitrary: s) (simp_all add: queue_ok_step)

lemma drain_ok_taskSettles:
  assumes ok: "drain_ok s"
  shows "drain_ok (taskSettles t out s)"
proof (cases "t \<in> fst ` set (dispatched s) \<and> settled s t = None")
  case False
  then have "taskSettles t out s = s" by (auto simp: taskSettles_def)
  with ok show ?thesis by simp
next
  case True
  then have eq: "taskSettles t out s = s\<lparr>settled := (settled s)(t \<mapsto> out)\<rparr>"
    by (simp add: taskSettles_def)
  have "set (unsettled (s\<lparr>settled := (settled s)(t \<mapsto> out)\<rparr>)) \<subseteq> set (unsettled s)"
    by (auto simp: unsettled_def)
  with ok True show ?thesis
    unfolding eq drain_ok_def by (simp add: subset_iff)
qed

lemma drain_ok_allSettled:
  assumes ok: "drain_ok s"
  shows "drain_ok (allSettled i s)"
proof (cases "i < length (drains s) \<and> list_all (\<lambda>t. settled s t \<noteq> None) (drains s ! i)")
  case False
  then have "allSettled i s = s" by (auto simp: allSettled_def)
  with ok show ?thesis by simp
next
  case True
  have len: "length (drains s) = 1"
    using ok True by (cases "isProcessing s") (auto simp: drain_ok_def)
  with True have i0: "i = 0" by simp
  from len obtain d where d: "drains s = [d]"
    by (cases "drains s") auto
  have all: "\<And>t. t \<in> set d \<Longrightarrow> settled s t \<noteq> None"
    using True by (simp add: i0 d list_all_iff)
  have ind: "\<And>t. t \<in> set (unsettled s) \<Longrightarrow> t \<in> set d"
    using ok d by (auto simp: drain_ok_def)
  have "t \<notin> set (unsettled s)" for t
  proof
    assume a: "t \<in> set (unsettled s)"
    then have "t \<in> set d" by (rule ind)
    then have "settled s t \<noteq> None" by (rule all)
    moreover from a have "settled s t = None" by (simp add: unsettled_set)
    ultimately show False by simp
  qed
  then have none: "unsettled s = []" by (cases "unsettled s") auto
  have un: "unsettled (allSettled i s) = unsettled s"
    by (simp add: allSettled_def unsettled_def Let_def)
  show ?thesis
    using ok True unfolding drain_ok_def un none
    by (simp add: allSettled_def Let_def i0 d)
qed

lemma drain_ok_step:
  assumes qk: "queue_ok s" and ok: "drain_ok s" and cl: "e = Clear \<longrightarrow> \<not> isProcessing s"
  shows "drain_ok (throttle_step e s)"
proof (cases e)
  case (Submit fn prio)
  show ?thesis
    unfolding Submit using qk ok
    by (simp add: queueRequest_eq drain_ok_processQueue queue_ok_enqueue drain_ok_enqueue)
next
  case (TaskSettles t out)
  show ?thesis
    unfolding TaskSettles using ok by (simp add: drain_ok_taskSettles)
next
  case (AllSettled i)
  show ?thesis
    unfolding AllSettled using ok by (simp add: drain_ok_allSettled)
next
  case (TimerFires i)
  have "queue_ok (s\<lparr>timers := take i (timers s) @ drop (Suc i) (timers s)\<rparr>)"
    using qk by (simp add: queue_ok_def)
  moreover have "drain_ok (s\<lparr>timers := take i (timers s) @ drop (Suc i) (timers s)\<rparr>)"
    using ok by (simp add: drain_ok_def unsettled_def)
  ultimately show ?thesis
    unfolding TimerFires using ok by (simp add: timerFires_def drain_ok_processQueue)
next
  case Sweep
  show ?thesis
    unfolding Sweep using ok by (simp add: drain_ok_def sweep_def unsettled_def)
next
  case Clear
  with cl have np: "\<not> isProcessing s" by simp
  with ok have dr: "drains s = []" and ds: "distinct (map fst (dispatched s))"
    by (simp_all add: drain_ok_def)
  have "set (unsettled s) = {}"
    using ok dr by (auto simp: drain_ok_def)
  then have un: "unsettled (clear_throttle s) = []"
    by (simp add: clear_throttle_def unsettled_def)
  show ?thesis
    unfolding Clear throttle_step.simps drain_ok_def un
    using dr ds by (simp add: clear_throttle_def)
next
  case (Tick d)
  show ?thesis
    unfolding Tick using ok by (simp add: drain_ok_def unsettled_def)
qed

lemma drain_ok_new: "drain_ok (new_RequestThrottle\<lparr>maxConcurrent := m\<rparr>)"
  by (simp add: drain_ok_def new_RequestThrottle_def unsettled_def)

lemma drain_ok_run:
  "queue_ok s \<Longrightarrow> drain_ok s \<Longrightarrow> clears_idle evs s \<Longrightarrow> drain_ok (throttle_run evs s)"
  unfolding throttle_run_def
  by (induction evs arbitrary: s) (simp_all add: drain_ok_step queue_ok_step)

lemma unsettled_bound:
  assumes ok: "drain_ok s"
  shows "length (unsettled s) \<le> maxConcurrent s"
proof (cases "drains s")
  case Nil
  with ok have "set (unsettled s) = {}" by (auto simp: drain_ok_def)
  then show ?thesis by simp
next
  case (Cons d ds)
  with ok have ds: "ds = []" by (cases "isProcessing s") (auto simp: drain_ok_def)
  have sub: "set (unsettled s) \<subseteq> set d"
    using ok Cons ds by (auto simp: drain_ok_def)
  have "distinct (unsettled s)"
    using ok by (simp add: drain_ok_def unsettled_def)
  then have "length (unsettled s) = card (set (unsettled s))"
    by (simp add: distinct_card)
  also have "\<dots> \<le> card (set d)" using sub by (simp add: card_mono)
  also have "\<dots> \<le> length d" by (rule card_length)
  also have "\<dots> \<le> maxConcurrent s" using ok Cons by (simp add: drain_ok_def)
  finally show ?thesis .
qed

lemma dropped_processQueue:
  assumes "dropped x s"
  shows "dropped x (processQueue s)"
proof (cases "isProcessing s \<or> requestQueue s = []")
  case True
  with assms show ?thesis by (simp add: processQueue_idle)
next
  case False
  then have np: "\<not> isProcessing s" and ne: "requestQueue s \<noteq> []" by simp_all
  note f = processQueue_fields[OF np ne]
  have x: "x < next_tid s" "x \<notin> tid ` set (requestQueue s)" "x \<notin> fst ` set (dispatched s)"
    "settled s x = None"
    using assms by (simp_all add: dropped_def)
  have tk: "x \<notin> tid ` set (take (maxConcurrent s) (requestQueue s))"
    using x(2) by (auto dest: in_set_takeD)
  have dr: "x \<notin> tid ` set (drop (maxConcurrent s) (requestQueue s))"
    using x(2) by (auto dest: in_set_dropD)
  have "x \<notin> fst ` set (dispatched (processQueue s))"
    using x(3) tk by (auto simp: f(2) image_Un image_image)
  moreover have "settled (processQueue s) x = None"
    using x(4) tk by (simp add: f(3) sync_rejects_other)
  ultimately show ?thesis
    using x(1) dr by (simp add: dropped_def f(1,9))
qed

lemma dropped_step:
  assumes "dropped x s"
  shows "dropped x (throttle_step e s)"
proof (cases e)
  case (Submit fn prio)
  have "dropped x (s\<lparr>next_tid := Suc (next_tid s),
            requestQueue := sort_key (\<lambda>a. - priority a)
              (requestQueue s @ [\<lparr>tid = next_tid s, requestFn = fn, priority = prio, timestamp = now s\<rparr>])\<rparr>)"
    using assms by (auto simp: dropped_def)
  then show ?thesis
    unfolding Submit by (simp add: queueRequest_eq dropped_processQueue)
next
  case (TaskSettles t out)
  with assms show ?thesis by (auto simp: dropped_def taskSettles_def)
next
  case (AllSettled i)
  with assms show ?thesis by (auto simp: dropped_def allSettled_def Let_def)
next
  case (TimerFires i)
  have "dropped x (s\<lparr>timers := take i (timers s) @ drop (Suc i) (timers s)\<rparr>)"
    using assms by (simp add: dropped_def)
  then show ?thesis
    unfolding TimerFires using assms by (simp add: timerFires_def dropped_processQueue)
next
  case Sweep
  with assms show ?thesis by (auto simp: dropped_def sweep_def)
next
  case Clear
  with assms show ?thesis by (simp add: dropped_def clear_throttle_def)
next
  case (Tick d)
  with assms show ?thesis by (simp add: dropped_def)
qed

lemma dropped_run: "dropped x s \<Longrightarrow> dropped x (throttle_run evs s)"
  unfolding throttle_run_def
  by (induction evs arbitrary: s) (simp_all add: dropped_step)

lemma dropped_sweep:
  assumes ok: "queue_ok s" and t: "t \<in> set (requestQueue s)"
    and old: "now s - timestamp t > 30000"
  shows "dropped (tid t) (sweep s)"
proof -
  have q1: "distinct (map tid (requestQueue s))"
    using ok by (simp add: queue_ok_def)
  have q2: "tid t < next_tid s \<and> tid t \<notin> fst ` set (dispatched s)"
    using ok t unfolding queue_ok_def by blast
  have q5: "settled s (tid t) = None"
    using ok q2 unfolding queue_ok_def by blast
  have "tid t \<notin> tid ` set (filter (\<lambda>t. now s - timestamp t < 30000) (requestQueue s))"
  proof
    assume "tid t \<in> tid ` set (filter (\<lambda>t. now s - timestamp t < 30000) (requestQueue s))"
    then obtain u where u: "u \<in> set (requestQueue s)" "now s - timestamp u < 30000" "tid u = tid t"
      by auto
    from q1 u(1,3) t have "u = t"
      by (auto simp: distinct_map inj_on_def)
    with u(2) old show False by simp
  qed
  then show ?thesis
    using q2 q5 by (simp add: dropped_def sweep_def)
qed

lemma maxConcurrent_processQueue [simp]: "maxConcurrent (processQueue s) = maxConcurrent s"
  by (cases "isProcessing s \<or> requestQueue s = []")
     (auto simp: processQueue_idle processQueue_fields(6))

lemma maxConcurrent_step [simp]: "maxConcurrent (throttle_step e s) = maxConcurrent s"
  by (cases e) (auto simp: queueRequest_eq timerFires_def taskSettles_def allSettled_def
      sweep_def clear_throttle_def Let_def)

lemma maxConcurrent_run [simp]: "maxConcurrent (throttle_run evs s) = maxConcurrent s"
  unfolding throttle_run_def
  by (induction evs arbitrary: s) simp_all

lemma processQueue_order:
  "map fst (dispatched (processQueue s)) =
     map fst (dispatched s) @
       (if isProcessing s then [] else map tid (take (maxConcurrent s) (requestQueue s)))"
  "requestQueue (processQueue s) =
     (if isProcessing s then requestQueue s else drop (maxConcurrent s) (requestQueue s))"
proof -
  show "map fst (dispatched (processQueue s)) =
     map fst (dispatched s) @
       (if isProcessing s then [] else map tid (take (maxConcurrent s) (requestQueue s)))"
  proof (cases "isProcessing s \<or> requestQueue s = []")
    case True then show ?thesis by (auto simp: processQueue_idle)
  next
    case False then show ?thesis by (simp add: processQueue_fields(2) comp_def)
  qed
  show "requestQueue (processQueue s) =
     (if isProcessing s then requestQueue s else drop (maxConcurrent s) (requestQueue s))"
  proof (cases "isProcessing s \<or> requestQueue s = []")
    case True then show ?thesis by (auto simp: processQueue_idle)
  next
    case False then show ?thesis by (simp add: processQueue_fields(1))
  qed
qed

text \<open>
  Claim C5, as amended. Consider any run from a fresh queue (with any configured
  \<^verbatim>\<open>maxConcurrent\<close>) made of submissions, settlements of dispatched operations,
  resumptions of \<^verbatim>\<open>processQueue\<close>, timers, clean-ups, calls of \<^verbatim>\<open>clear()\<close> and the passing
  of time, in any order, in which \<^verbatim>\<open>clear()\<close> is never called while a drain is active. In
  every state of such a run the number of tasks that have been dispatched and have not
  settled is at most \<^verbatim>\<open>maxConcurrent\<close>. A submission during an active drain or between a
  batch and its timer is one of these events. Inside the \<^verbatim>\<open>while\<close> loop the number only
  grows towards the value it has in the state after the loop.
\<close>

theorem concurrency_bound:
  assumes "clears_idle evs (new_RequestThrottle\<lparr>maxConcurrent := m\<rparr>)"
  shows "length (unsettled (throttle_run evs (new_RequestThrottle\<lparr>maxConcurrent := m\<rparr>))) \<le> m"
proof -
  have "drain_ok (throttle_run evs (new_RequestThrottle\<lparr>maxConcurrent := m\<rparr> :: 'a RequestThrottle))"
    using queue_ok_new_max drain_ok_new assms by (rule drain_ok_run)
  from unsettled_bound[OF this] show ?thesis by simp
qed

theorem concurrency_bound_witness:
  "clears_idle
      [Clear, Submit Returns 0, Submit Returns 0, Submit Returns 0, Submit Returns 0,
       Submit Returns 0, Submit Returns 0, TaskSettles 0 (Fulfilled ()), AllSettled 0,
       Submit Returns 0, Tick 100, TimerFires 0]
      (new_RequestThrottle\<lparr>maxConcurrent := 3\<rparr>) \<and>
   length (unsettled (throttle_run
      [Clear, Submit Returns 0, Submit Returns 0, Submit Returns 0, Submit Returns 0,
       Submit Returns 0, Submit Returns 0, TaskSettles 0 (Fulfilled ()), AllSettled 0,
       Submit Returns 0, Tick 100, TimerFires 0]
      (new_RequestThrottle\<lparr>maxConcurrent := 3\<rparr>))) \<le> 3 \<and>
   unsettled (throttle_run
      [Clear, Submit Returns 0, Submit Returns 0, Submit Returns 0, Submit Returns 0,
       Submit Returns 0, Submit Returns 0, TaskSettles 0 (Fulfilled ()), AllSettled 0,
       Submit Returns 0, Tick 100, TimerFires 0]
      (new_RequestThrottle\<lparr>maxConcurrent := 3\<rparr>)) = [1, 2, 3]"
proof -
  let ?evs = "[Clear, Submit Returns 0, Submit Returns 0, Submit Returns 0, Submit Returns 0,
       Submit Returns 0, Submit Returns 0, TaskSettles 0 (Fulfilled ()), AllSettled 0,
       Submit Returns 0, Tick 100, TimerFires 0] :: unit throttle_event list"
  have h: "clears_idle ?evs (new_RequestThrottle\<lparr>maxConcurrent := 3\<rparr>)"
    by code_simp
  have u: "unsettled (throttle_run ?evs (new_RequestThrottle\<lparr>maxConcurrent := 3\<rparr>)) = [1, 2, 3]"
    by code_simp
  from concurrency_bound [OF h] h u show ?thesis by simp
qed

text \<open>
  Claim C5 as stated. \<^verbatim>\<open>clear()\<close> resets \<^verbatim>\<open>isProcessing\<close> although the dispatched task
  of the active drain has not settled, so the next submission starts another drain.
  After four submissions, each but the last followed by \<^verbatim>\<open>clear()\<close>, four tasks are
  dispatched and unsettled with \<^verbatim>\<open>maxConcurrent\<close> equal to 3.
\<close>

theorem concurrency_clear_counterexample:
  "unsettled (throttle_run
      [Submit Returns 0, Clear, Submit Returns 0, Clear, Submit Returns 0, Clear,
       Submit Returns 0] (new_RequestThrottle :: unit RequestThrottle)) = [0, 1, 2, 3] \<and>
   maxConcurrent (throttle_run
      [Submit Returns 0, Clear, Submit Returns 0, Clear, Submit Returns 0, Clear,
       Submit Returns 0] (new_RequestThrottle :: unit RequestThrottle)) = 3"
  by code_simp

text \<open>
  Claim C6, as amended. In every run of the events of the queue, the waiting queue is
  at all times in the order "higher
  priority first, earlier submission first among equal priorities", and a drain
  dispatches from the front of the queue, in that order, up to \<^verbatim>\<open>maxConcurrent\<close> tasks,
  leaving the rest waiting. Priority therefore orders the tasks that are waiting
  together; a task submitted to an idle queue is dispatched at once.
\<close>

theorem queue_priority_order:
  "sorted_wrt goes_before (requestQueue (throttle_run evs new_RequestThrottle)) \<and>
   (\<forall>s :: 'v RequestThrottle.
      map fst (dispatched (processQueue s)) =
        map fst (dispatched s) @
          (if isProcessing s then [] else map tid (take (maxConcurrent s) (requestQueue s))) \<and>
      requestQueue (processQueue s) =
        (if isProcessing s then requestQueue s else drop (maxConcurrent s) (requestQueue s)))"
proof -
  have "queue_ok (throttle_run evs (new_RequestThrottle :: 'a RequestThrottle))"
    by (intro queue_ok_run queue_ok_new)
  then show ?thesis
    by (simp add: queue_ok_def processQueue_order)
qed

text \<open>
  Tasks 1 to 4 are submitted with priorities 1, 5, 1, 10 while task 0 is in flight.
  The queue holds them as 4, 2, 1, 3 and the next drain dispatches 4, 2, 1 (priorities
  10, 5 and the first-submitted 1), leaving the second-submitted 1.
\<close>

theorem queue_priority_order_witness:
  "map tid (requestQueue (throttle_run
      [Submit Returns 0, Submit Returns 1, Submit Returns 5, Submit Returns 1, Submit Returns 10,
       TaskSettles 0 (Fulfilled ()), AllSettled 0] new_RequestThrottle)) = [4, 2, 1, 3] \<and>
   map fst (dispatched (processQueue (throttle_run
      [Submit Returns 0, Submit Returns 1, Submit Returns 5, Submit Returns 1, Submit Returns 10,
       TaskSettles 0 (Fulfilled ()), AllSettled 0] new_RequestThrottle))) = [0, 4, 2, 1] \<and>
   map tid (requestQueue (processQueue (throttle_run
      [Submit Returns 0, Submit Returns 1, Submit Returns 5, Submit Returns 1, Submit Returns 10,
       TaskSettles 0 (Fulfilled ()), AllSettled 0] new_RequestThrottle))) = [3]"
proof -
  let ?s = "throttle_run
      [Submit Returns 0, Submit Returns 1, Submit Returns 5, Submit Returns 1, Submit Returns 10,
       TaskSettles 0 (Fulfilled ()), AllSettled 0] (new_RequestThrottle :: unit RequestThrottle)"
  have e: "isProcessing ?s = False" "map tid (requestQueue ?s) = [4, 2, 1, 3]"
    "map fst (dispatched ?s) = [0]" "maxConcurrent ?s = 3"
    by code_simp+
  have n: "take 3 [4, 2, 1, 3 :: nat] = [4, 2, 1]" "drop 3 [4, 2, 1, 3 :: nat] = [3]"
    by simp_all
  note qo = queue_priority_order [of "[]", where 'v = unit, THEN conjunct2, THEN spec, of ?s]
  from qo have "map fst (dispatched (processQueue ?s)) =
          map fst (dispatched ?s) @
            (if isProcessing ?s then [] else take (maxConcurrent ?s) (map tid (requestQueue ?s)))"
    by (simp add: take_map)
  moreover from qo have "map tid (requestQueue (processQueue ?s)) =
          (if isProcessing ?s then map tid (requestQueue ?s)
           else drop (maxConcurrent ?s) (map tid (requestQueue ?s)))"
    by (simp add: drop_map)
  ultimately have "map fst (dispatched (processQueue ?s)) = [0, 4, 2, 1]"
    "map tid (requestQueue (processQueue ?s)) = [3]"
    unfolding e n by simp_all
  then show ?thesis
    using e(2) by simp
qed

text \<open>
  Claim C6 as stated: tasks submitted with priorities 1, 5, 1, 10 (tasks 0, 1, 2, 3) to
  an idle queue. The first submission finds the queue idle and is dispatched on the
  spot; the other three wait and are dispatched by the next drain in the order 3, 1, 2.
  The dispatch order is 0, 3, 1, 2, not 3, 1, 0, 2.
\<close>

theorem dispatch_order_idle_counterexample:
  "map fst (dispatched (throttle_run
      [Submit Returns 1, Submit Returns 5, Submit Returns 1, Submit Returns 10,
       TaskSettles 0 (Fulfilled ()), AllSettled 0, Tick 100, TimerFires 0]
      new_RequestThrottle)) = [0, 3, 1, 2]"
  by code_simp

text \<open>
  Claim C7 at a concrete run. Task 0 is dispatched alone at time 0 and task 1 waits. The
  batch is complete at time 50; \<^verbatim>\<open>processQueue\<close> clears \<^verbatim>\<open>isProcessing\<close> and sets the timer
  for time 150. A submission at time 60 calls \<^verbatim>\<open>processQueue\<close> directly and dispatches
  tasks 1 and 2 at time 60, ten milliseconds after the earlier batch, with
  \<^verbatim>\<open>requestDelay\<close> equal to 100.
\<close>

theorem delay_skipped_by_submit:
  "dispatched (throttle_run
      [Submit Returns 0, Submit Returns 0, Tick 50, TaskSettles 0 (Fulfilled ()), AllSettled 0,
       Tick 10, Submit Returns 0] new_RequestThrottle) = [(0, 0), (1, 60), (2, 60)] \<and>
   batchEnds (throttle_run
      [Submit Returns 0, Submit Returns 0, Tick 50, TaskSettles 0 (Fulfilled ()), AllSettled 0,
       Tick 10, Submit Returns 0] new_RequestThrottle) = [50] \<and>
   timers (throttle_run
      [Submit Returns 0, Submit Returns 0, Tick 50, TaskSettles 0 (Fulfilled ()), AllSettled 0,
       Tick 10, Submit Returns 0] new_RequestThrottle) = [150] \<and>
   requestDelay (throttle_run
      [Submit Returns 0, Submit Returns 0, Tick 50, TaskSettles 0 (Fulfilled ()), AllSettled 0,
       Tick 10, Submit Returns 0] new_RequestThrottle) = 100"
  by code_simp

text \<open>
  Claim C9. Take a task that waits in the queue of a state reached by any run of the
  events of the queue, and whose age exceeds 30000 milliseconds when the clean-up runs.
  After the clean-up, and after any further events, the task is not in the queue, it has never been dispatched, and
  neither \<^verbatim>\<open>resolve\<close> nor \<^verbatim>\<open>reject\<close> has been called for it: its caller is never
  notified.
\<close>

theorem sweep_drops_silently:
  assumes "t \<in> set (requestQueue (throttle_run evs0 new_RequestThrottle))"
    and "now (throttle_run evs0 new_RequestThrottle) - timestamp t > 30000"
  shows "tid t \<notin> tid ` set (requestQueue (throttle_run evs (sweep (throttle_run evs0 new_RequestThrottle)))) \<and>
         tid t \<notin> fst ` set (dispatched (throttle_run evs (sweep (throttle_run evs0 new_RequestThrottle)))) \<and>
         settled (throttle_run evs (sweep (throttle_run evs0 new_RequestThrottle))) (tid t) = None"
proof -
  have "queue_ok (throttle_run evs0 (new_RequestThrottle :: 'a RequestThrottle))"
    by (intro queue_ok_run queue_ok_new)
  from dropped_run[OF dropped_sweep[OF this assms]] show ?thesis
    by (simp add: dropped_def)
qed

theorem sweep_drops_silently_witness:
  "\<lparr>tid = 1, requestFn = Returns, priority = 0, timestamp = 0\<rparr>
     \<in> set (requestQueue (throttle_run [Submit Returns 0, Submit Returns 0, Tick 30001]
                (new_RequestThrottle :: unit RequestThrottle))) \<and>
   now (throttle_run [Submit Returns 0, Submit Returns 0, Tick 30001]
         (new_RequestThrottle :: unit RequestThrottle))
     - timestamp \<lparr>tid = 1, requestFn = Returns, priority = 0, timestamp = 0\<rparr> > 30000 \<and>
   settled (throttle_run [TaskSettles 0 (Fulfilled ()), AllSettled 0, Submit Returns 0]
     (sweep (throttle_run [Submit Returns 0, Submit Returns 0, Tick 30001]
        (new_RequestThrottle :: unit RequestThrottle)))) 1 = None \<and>
   map fst (dispatched (throttle_run [TaskSettles 0 (Fulfilled ()), AllSettled 0, Submit Returns 0]
     (sweep (throttle_run [Submit Returns 0, Submit Returns 0, Tick 30001]
        (new_RequestThrottle :: unit RequestThrottle))))) = [0, 2]"
proof -
  let ?t = "\<lparr>tid = 1, requestFn = Returns, priority = 0, timestamp = 0\<rparr>"
  let ?s = "throttle_run [Submit Returns 0, Submit Returns 0, Tick 30001]
              (new_RequestThrottle :: unit RequestThrottle)"
  have q: "requestQueue ?s = [?t]" and n: "now ?s = 30001"
    by (simp_all add: throttle_run_def queueRequest_def processQueue_def executeRequest_def
        new_RequestThrottle_def Let_def)
  have h1: "?t \<in> set (requestQueue ?s)" by (simp add: q)
  have h2: "now ?s - timestamp ?t > 30000" by (simp add: n)
  have d: "map fst (dispatched (throttle_run [TaskSettles 0 (Fulfilled ()), AllSettled 0, Submit Returns 0]
             (sweep ?s))) = [0, 2]"
    by (simp add: throttle_run_def queueRequest_def processQueue_def executeRequest_def
        taskSettles_def allSettled_def sweep_def new_RequestThrottle_def Let_def)
  from sweep_drops_silently [OF h1 h2, of "[TaskSettles 0 (Fulfilled ()), AllSettled 0, Submit Returns 0]"]
    h1 h2 d
  show ?thesis by simp
qed

section \<open>Properties of the fetch hook\<close>

text \<open>
  The lemmas follow one call of \<^verbatim>\<open>fetchData()\<close> on a fresh module and hook. When the
  first attempt fails and a retry is allowed, the \<^verbatim>\<open>catch\<close> branch calls
  \<^verbatim>\<open>fetchData(true)\<close> while the request promise is still registered in
  \<^verbatim>\<open>pendingRequests\<close> (it is deleted only in the \<^verbatim>\<open>finally\<close> after the request promise
  settles). The retry call takes the pending-request branch and awaits the request
  promise, which in turn has adopted the promise of that retry call. After five turns
  of the event loop nothing is left to run (\<open>retry_deadlock\<close>), and at no point of the
  run is the caller's promise settled or the operation invoked a second time
  (\<open>retry_never_settles\<close>). With no retry allowed the failure does reach the caller
  (\<open>retry_zero_surfaces\<close>), and a success is cached and returned (\<open>fetch_success\<close>).
\<close>

lemma hook_run_quiescent: "hook_step opts s = None \<Longrightarrow> hook_run opts n s = s"
  by (cases n) simp_all

lemma hook_run_add: "hook_run opts (a + b) s = hook_run opts b (hook_run opts a s)"
proof (induction a arbitrary: s)
  case 0
  then show ?case by simp
next
  case (Suc a)
  show ?case
  proof (cases "hook_step opts s")
    case None
    then show ?thesis by (simp add: hook_run_quiescent)
  next
    case (Some s')
    then show ?thesis by (simp add: Suc.IH)
  qed
qed

lemma retry_deadlock:
  assumes "enabled opts" "0 < retryCount opts" "apiFunction opts 0 = Rejected e"
  shows "apiCallCount (hook_run opts 5 (snd (fetchData opts False new_hook_state))) = 1"
    and "promises (hook_run opts 5 (snd (fetchData opts False new_hook_state))) 0 = None"
    and "hook_step opts (hook_run opts 5 (snd (fetchData opts False new_hook_state))) = None"
    and "frames (hook_run opts 5 (snd (fetchData opts False new_hook_state))) =
           [ReqWait 0 1, JoinWait 4 1, Adopt 1 4]"
  using assms
  by (simp_all add: fetchData_def fetchData_request_def new_hook_state_def hook_step_def Let_def
      eval_nat_numeral)

lemma retry_prefix:
  assumes "enabled opts" "0 < retryCount opts" "apiFunction opts 0 = Rejected e"
  shows "n \<le> 5 \<Longrightarrow> promises (hook_run opts n (snd (fetchData opts False new_hook_state))) 0 = None \<and>
         apiCallCount (hook_run opts n (snd (fetchData opts False new_hook_state))) = 1"
proof -
  assume "n \<le> 5"
  then consider "n = 0" | "n = 1" | "n = 2" | "n = 3" | "n = 4" | "n = 5" by linarith
  then show ?thesis
    using assms
    by cases (simp_all add: fetchData_def fetchData_request_def new_hook_state_def hook_step_def
        Let_def eval_nat_numeral)
qed

lemma retry_never_settles:
  assumes "enabled opts" "0 < retryCount opts" "apiFunction opts 0 = Rejected e"
  shows "promises (hook_run opts n (snd (fetchData opts False new_hook_state))) 0 = None \<and>
         apiCallCount (hook_run opts n (snd (fetchData opts False new_hook_state))) = 1"
proof (cases "n \<le> 5")
  case True
  then show ?thesis by (rule retry_prefix[OF assms])
next
  case False
  then obtain m where n: "n = 5 + m" by (metis le_add_diff_inverse nat_le_linear)
  show ?thesis
    unfolding n hook_run_add
    by (simp add: hook_run_quiescent retry_deadlock[OF assms])
qed

lemma retry_zero_surfaces:
  assumes "enabled opts" "retryCount opts = 0" "apiFunction opts 0 = Rejected e"
  shows "promises (hook_run opts 3 (snd (fetchData opts False new_hook_state))) 0 = Some (Rejected e)"
    and "apiCallCount (hook_run opts 3 (snd (fetchData opts False new_hook_state))) = 1"
    and "hook_step opts (hook_run opts 3 (snd (fetchData opts False new_hook_state))) = None"
  using assms
  by (simp_all add: fetchData_def fetchData_request_def new_hook_state_def hook_step_def Let_def
      eval_nat_numeral)

lemma fetch_success:
  assumes "enabled opts" "apiFunction opts 0 = Fulfilled v"
  shows "promises (hook_run opts 3 (snd (fetchData opts False new_hook_state))) 0 = Some (Fulfilled (Some v))"
    and "apiCallCount (hook_run opts 3 (snd (fetchData opts False new_hook_state))) = 1"
    and "globalCache (hook_run opts 3 (snd (fetchData opts False new_hook_state))) (finalCacheKey opts)
           = Some \<lparr>data = v, entry.timestamp = 0\<rparr>"
    and "pendingRequests_hook (hook_run opts 3 (snd (fetchData opts False new_hook_state))) (finalCacheKey opts) = None"
  using assms
  by (simp_all add: fetchData_def fetchData_request_def new_hook_state_def hook_step_def Let_def
      eval_nat_numeral)

text \<open>
  Claim C2 at a concrete input: an operation that always fails, with the default
  \<^verbatim>\<open>retryCount\<close> of 3 and \<^verbatim>\<open>retryDelay\<close> of 1000. The claim expects four invocations and
  then a failure. The operation is invoked once; the event loop comes to rest with the
  caller's promise (number 0) unsettled, so the caller observes neither a result nor a
  failure.
\<close>

theorem retry_joins_itself:
  "fst (fetchData \<lparr>finalCacheKey = ''k'', cacheDuration = 300000, enabled = True, retryCount = 3,
          retryDelay = 1000, apiFunction = (\<lambda>n. Rejected ''down'' :: nat outcome)\<rparr>
        False new_hook_state) = 0 \<and>
   apiCallCount (hook_run \<lparr>finalCacheKey = ''k'', cacheDuration = 300000, enabled = True,
          retryCount = 3, retryDelay = 1000, apiFunction = (\<lambda>n. Rejected ''down'' :: nat outcome)\<rparr> 100
      (snd (fetchData \<lparr>finalCacheKey = ''k'', cacheDuration = 300000, enabled = True, retryCount = 3,
          retryDelay = 1000, apiFunction = (\<lambda>n. Rejected ''down'' :: nat outcome)\<rparr>
        False new_hook_state))) = 1 \<and>
   promises (hook_run \<lparr>finalCacheKey = ''k'', cacheDuration = 300000, enabled = True,
          retryCount = 3, retryDelay = 1000, apiFunction = (\<lambda>n. Rejected ''down'' :: nat outcome)\<rparr> 100
      (snd (fetchData \<lparr>finalCacheKey = ''k'', cacheDuration = 300000, enabled = True, retryCount = 3,
          retryDelay = 1000, apiFunction = (\<lambda>n. Rejected ''down'' :: nat outcome)\<rparr>
        False new_hook_state))) 0 = None \<and>
   hook_step \<lparr>finalCacheKey = ''k'', cacheDuration = 300000, enabled = True,
          retryCount = 3, retryDelay = 1000, apiFunction = (\<lambda>n. Rejected ''down'' :: nat outcome)\<rparr>
     (hook_run \<lparr>finalCacheKey = ''k'', cacheDuration = 300000, enabled = True,
          retryCount = 3, retryDelay = 1000, apiFunction = (\<lambda>n. Rejected ''down'' :: nat outcome)\<rparr> 100
      (snd (fetchData \<lparr>finalCacheKey = ''k'', cacheDuration = 300000, enabled = True, retryCount = 3,
          retryDelay = 1000, apiFunction = (\<lambda>n. Rejected ''down'' :: nat outcome)\<rparr>
        False new_hook_state))) = None"
proof -
  let ?opts = "\<lparr>finalCacheKey = ''k'', cacheDuration = 300000, enabled = True, retryCount = 3,
          retryDelay = 1000, apiFunction = (\<lambda>n. Rejected ''down'' :: nat outcome)\<rparr>"
  have h: "enabled ?opts" "0 < retryCount ?opts" "apiFunction ?opts 0 = Rejected ''down''"
    by simp_all
  have run: "hook_run ?opts 100 (snd (fetchData ?opts False new_hook_state)) =
             hook_run ?opts 5 (snd (fetchData ?opts False new_hook_state))"
    using hook_run_add[of ?opts 5 95] retry_deadlock(3)[OF h]
    by (simp add: hook_run_quiescent)
  have "fst (fetchData ?opts False new_hook_state) = 0"
    by (simp add: fetchData_def new_hook_state_def Let_def)
  then show ?thesis
    unfolding run using retry_deadlock[OF h] by simp
qed

end
